theory Spec2Isabelle
  imports Complex_Main "HOL-Library.Multiset"
begin

section \<open>Fused sparse Adagrad kernels (caffe2/sgd/adagrad\_fused\_op\_gpu.cu)\<close>

text \<open>
  The development embeds the four CUDA kernels of the file and the host code that launches
  them. Conventions of the embedding:
  \<^item> \<open>float\<close> values are real numbers and \<open>sqrtf\<close> is the real square root: rounding
    is outside the model, so every equation below is the identity that the device
    computes up to floating-point tolerance;
  \<^item> \<open>int\<close>, \<open>unsigned int\<close>, \<open>size_t\<close> and the index type are machine integers: an offset
    is computed in the types of the source expression, with wrap-around at every
    operation and conversion. Tensor sizes are taken to fit the \<open>int\<close> variables in which
    the host holds them;
  \<^item> device memory is one store from locations to values, with a region for the
    parameter table, one for the moment (accumulator) table and one for the
    weight-gradient output; a kernel receives raw pointers, so a read or write at any
    integer offset is a read or write of the store;
  \<^item> the order in which the device runs its work is a parameter of a launch (a schedule,
    the list of work items in the order of execution). A work item is one element
    update in the kernel without barriers, and one barrier-delimited iteration of a
    block over a member in the three kernels that reduce across lanes;
  \<^item> names follow the source; \<open>g\<close> stands for \<open>group\<close>, \<open>end'\<close> for \<open>end\<close>, and \<open>op_epsilon\<close>
    and \<open>op_weight_decay\<close> for the operator members \<open>epsilon_\<close> and \<open>weight_decay_\<close>.
\<close>

subsection \<open>Segment offsets\<close>

text \<open>
  Modelled from the spec: \<open>cub::DeviceScan::InclusiveSum\<close> is a library routine whose code
  is not part of the file. The spec's contract is that output \<open>i\<close> is the inclusive sum of
  the inputs \<open>0..i\<close>; the model is the running sum that carries an accumulator along the
  input.
\<close>

fun scan_from :: "int \<Rightarrow> int list \<Rightarrow> int list" where
  "scan_from acc [] = []"
| "scan_from acc (x # xs) = (acc + x) # scan_from (acc + x) xs"

definition InclusiveSum :: "int list \<Rightarrow> nat \<Rightarrow> int list" where
  "InclusiveSum d_in num_items = scan_from 0 (take num_items d_in)"

text \<open>
  \<open>inclusive_scan_wrapper\<close> (lines 49-77): the first call only sizes the temporary buffer,
  the second one scans the first \<open>len_length\<close> entries of \<open>length_data\<close> into
  \<open>prefix_sum_out\<close>.
\<close>

definition inclusive_scan_wrapper :: "int list \<Rightarrow> int \<Rightarrow> int list" where
  "inclusive_scan_wrapper length_data len_length = InclusiveSum length_data (nat len_length)"

text \<open>
  Every kernel starts with the same three statements (lines 99-103): block \<open>g\<close> (the source's \<open>group\<close>)
  owns the members \<open>start \<le> line < end\<close> of the index array.
\<close>

definition seg_start :: "int list \<Rightarrow> nat \<Rightarrow> int" where
  "seg_start prefix_sum_length_data g =
     (if g = 0 then 0 else prefix_sum_length_data ! (g - 1))"

definition seg_end :: "int list \<Rightarrow> nat \<Rightarrow> int" where
  "seg_end prefix_sum_length_data g = prefix_sum_length_data ! g"

subsection \<open>Machine integers\<close>

text \<open>
  A value of an integer type is the integer it denotes, and the result of an operation or
  of a conversion is reduced to the range of its type: modulo \<open>2\<^sup>3\<^sup>2\<close> or \<open>2\<^sup>6\<^sup>4\<close> for
  \<open>unsigned int\<close> and \<open>size_t\<close>, and by two's complement wrap-around for \<open>int\<close> and \<open>int64_t\<close>,
  which is what the device does on signed overflow.
\<close>

definition int32 :: "int \<Rightarrow> int" where
  "int32 x = (x + 2 ^ 31) mod 2 ^ 32 - 2 ^ 31"

definition uint32 :: "int \<Rightarrow> int" where
  "uint32 x = x mod 2 ^ 32"

definition int64 :: "int \<Rightarrow> int" where
  "int64 x = (x + 2 ^ 63) mod 2 ^ 64 - 2 ^ 63"

definition size_t :: "int \<Rightarrow> int" where
  "size_t x = x mod 2 ^ 64"

text \<open>
  The template argument \<open>SIndex\<close>, the element type of the index array: the host
  dispatches on \<open>int32_t\<close> and \<open>int64_t\<close> (lines 452-453). The product of an index and an \<open>int\<close>,
  and its sum with an \<open>int\<close>, have type \<open>int\<close> for \<open>int32_t\<close> and \<open>int64_t\<close> otherwise; the sum
  with \<open>threadIdx.x\<close>, an \<open>unsigned int\<close>, has type \<open>unsigned int\<close> for \<open>int32_t\<close> and
  \<open>int64_t\<close> otherwise.
\<close>

datatype sindex = int32_t | int64_t

definition SIndex_int :: "sindex \<Rightarrow> int \<Rightarrow> int" where
  "SIndex_int T x = (case T of int32_t \<Rightarrow> int32 x | int64_t \<Rightarrow> int64 x)"

definition SIndex_unsigned :: "sindex \<Rightarrow> int \<Rightarrow> int" where
  "SIndex_unsigned T x = (case T of int32_t \<Rightarrow> uint32 x | int64_t \<Rightarrow> int64 x)"

subsection \<open>Device memory and kernel arguments\<close>

text \<open>
  \<open>Param a\<close> is \<open>param[a]\<close>, \<open>Mom a\<close> is \<open>param_mom[a]\<close> and \<open>WGrad a\<close> is
  \<open>weights_grad_out[a]\<close>: the three arrays a kernel writes. The arrays it only reads are
  fields of the argument record.
\<close>

datatype loc = Param int | Mom int | WGrad int

type_synonym mem = "loc \<Rightarrow> real"

record kargs =
  SIndex :: sindex
  prefix_sum_length_data :: "int list"
  N :: int
  post :: int
  len_length :: int
  epsilon :: real
  indices :: "int \<Rightarrow> int"
  grad :: "int \<Rightarrow> real"
  weights :: "int \<Rightarrow> real"
  lr :: "int \<Rightarrow> real"
  weight_decay :: real

text \<open>
  The loop \<open>for (i = first; i < bound; i += step)\<close> visits \<open>strided first bound step\<close>.
  A block dimension is at least 1 on the device; for a step below 1 the list is empty.
\<close>

function strided :: "int \<Rightarrow> int \<Rightarrow> int \<Rightarrow> int list" where
  "strided i bound step =
     (if i < bound \<and> 0 < step then i # strided (i + step) bound step else [])"
  by pat_completeness auto
termination
  by (relation "measure (\<lambda>(i, bound, step). nat (bound - i))") auto

declare strided.simps [simp del]

text \<open>The two \<open>CUDA_KERNEL_ASSERT\<close>s at the head of every kernel, for block \<open>g\<close>.\<close>

definition block_asserts :: "kargs \<Rightarrow> nat \<Rightarrow> bool" where
  "block_asserts k g =
     (seg_start (prefix_sum_length_data k) g \<le> N k \<and> seg_end (prefix_sum_length_data k) g \<le> N k)"

text \<open>The threads \<open>(threadIdx.x, threadIdx.y)\<close> of a block of dimensions \<open>(bx, by)\<close>.\<close>

definition block_threads :: "int \<times> int \<Rightarrow> (int \<times> int) list" where
  "block_threads blockDim = concat (map (\<lambda>ty. map (\<lambda>tx. (tx, ty)) [0 .. fst blockDim - 1]) [0 .. snd blockDim - 1])"

text \<open>
  The four offset expressions of the kernels: \<open>group * post + i\<close> and \<open>index * post + i\<close>
  with an \<open>int\<close> \<open>i\<close>, and \<open>group * post + threadIdx.x\<close> and \<open>index * post + threadIdx.x\<close>.
  Where the source stores one in a \<open>size_t\<close> variable (\<open>gradIdx\<close>, \<open>paramIdx\<close>) the model
  converts it with \<open>size_t\<close>.
\<close>

definition group_post_int :: "kargs \<Rightarrow> nat \<Rightarrow> int \<Rightarrow> int" where
  "group_post_int k g i = int32 (int32 (int g * post k) + i)"

definition group_post_unsigned :: "kargs \<Rightarrow> nat \<Rightarrow> int \<Rightarrow> int" where
  "group_post_unsigned k g tx = uint32 (int32 (int g * post k) + tx)"

definition index_post_int :: "kargs \<Rightarrow> int \<Rightarrow> int \<Rightarrow> int" where
  "index_post_int k index i = SIndex_int (SIndex k) (SIndex_int (SIndex k) (index * post k) + i)"

definition index_post_unsigned :: "kargs \<Rightarrow> int \<Rightarrow> int \<Rightarrow> int" where
  "index_post_unsigned k index tx =
     SIndex_unsigned (SIndex k) (SIndex_int (SIndex k) (index * post k) + tx)"

subsection \<open>\<open>sparse_adagrad_fused_length_sum_gradient_kernel\<close>\<close>

text \<open>
  The body of the innermost loop (lines 108-121 and 125-139): the update of element \<open>i\<close>
  of the row of member \<open>line\<close> of segment \<open>g\<close>. The two branches differ in the type of the
  offsets only: with \<open>ExactBlock\<close> the element is \<open>threadIdx.x\<close>, otherwise the \<open>int\<close> \<open>i\<close>.
\<close>

definition adagrad_cell :: "bool \<Rightarrow> kargs \<Rightarrow> nat \<Rightarrow> int \<Rightarrow> int \<Rightarrow> mem \<Rightarrow> mem" where
  "adagrad_cell ExactBlock k g line i m =
     (let index = indices k line;
          gradIdx = size_t (if ExactBlock then group_post_unsigned k g i
                            else group_post_int k g i);
          paramIdx = size_t (if ExactBlock then index_post_unsigned k index i
                             else index_post_int k index i);
          gi = grad k gradIdx + weight_decay k * m (Param paramIdx);
          mom_new = gi * gi + m (Mom paramIdx);
          m1 = m(Mom paramIdx := mom_new);
          param_new = lr k 0 * gi / (sqrt mom_new + epsilon k) + m1 (Param paramIdx)
      in m1(Param paramIdx := param_new))"

text \<open>
  The cells \<open>(g, line, i)\<close> one thread updates, in program order. With \<open>ExactBlock\<close> the
  thread owns element \<open>threadIdx.x\<close> and every \<open>blockDim.y\<close>-th member; otherwise it owns
  every \<open>blockDim.x\<close>-th element and walks all members for each.
\<close>

definition sum_thread_cells ::
  "bool \<Rightarrow> kargs \<Rightarrow> int \<times> int \<Rightarrow> nat \<Rightarrow> int \<times> int \<Rightarrow> (nat \<times> int \<times> int) list" where
  "sum_thread_cells ExactBlock k blockDim g threadIdx =
     (let start = seg_start (prefix_sum_length_data k) g;
          end' = seg_end (prefix_sum_length_data k) g
      in if ExactBlock
         then map (\<lambda>line. (g, line, fst threadIdx))
                (strided (start + snd threadIdx) end' (snd blockDim))
         else concat (map (\<lambda>i. map (\<lambda>line. (g, line, i)) [start .. end' - 1])
                (strided (fst threadIdx) (post k) (fst blockDim))))"

definition sum_kernel_cells ::
  "bool \<Rightarrow> kargs \<Rightarrow> int \<times> int \<Rightarrow> (nat \<times> int \<times> int) list" where
  "sum_kernel_cells ExactBlock k blockDim =
     concat (map (\<lambda>g. concat (map (sum_thread_cells ExactBlock k blockDim g) (block_threads blockDim)))
       [0 ..< nat (len_length k)])"

definition sum_cell_step :: "bool \<Rightarrow> kargs \<Rightarrow> nat \<times> int \<times> int \<Rightarrow> mem \<Rightarrow> mem" where
  "sum_cell_step ExactBlock k c = (case c of (g, line, i) \<Rightarrow> adagrad_cell ExactBlock k g line i)"

subsection \<open>Launching a kernel\<close>

datatype error = EnforceNotMet | DeviceAssert | DivideByZero

text \<open>
  A launch of \<open>len_length\<close> blocks fails when the assertions of some block fail; otherwise
  the work items run in the order of the schedule. Which schedules a kernel admits is
  said per kernel, by the list of its work items: a schedule is a permutation of it.
\<close>

definition launch :: "kargs \<Rightarrow> ('w \<Rightarrow> mem \<Rightarrow> mem) \<Rightarrow> 'w list \<Rightarrow> mem \<Rightarrow> error + mem" where
  "launch k step sched m =
     (if list_all (block_asserts k) [0 ..< nat (len_length k)]
      then Inr (fold step sched m) else Inl DeviceAssert)"

definition schedule_of :: "'w list \<Rightarrow> 'w list \<Rightarrow> bool" where
  "schedule_of work sched = (mset sched = mset work)"

text \<open>
  The members a block walks: all of its segment in turn (\<open>for (line = start; line < end;
  ++line)\<close>), or, in the two-dimensional blocks, every \<open>blockDim.y\<close>-th one from
  \<open>start + threadIdx.y\<close> for each \<open>threadIdx.y\<close>.
\<close>

definition block_members :: "kargs \<Rightarrow> nat \<Rightarrow> (nat \<times> int) list" where
  "block_members k g =
     map (Pair g) [seg_start (prefix_sum_length_data k) g .. seg_end (prefix_sum_length_data k) g - 1]"


definition kernel_members :: "kargs \<Rightarrow> (nat \<times> int) list" where
  "kernel_members k = concat (map (block_members k) [0 ..< nat (len_length k)])"


subsection \<open>Block-wide reductions\<close>

text \<open>
  Modelled from the spec: \<open>cub::BlockReduce\<close> and \<open>cub::WarpReduce\<close> are library
  primitives whose code is not part of the file. By the spec they are sum-reductions
  across the lanes: \<open>Sum(x, valid)\<close> adds the values of the lanes \<open>0 .. valid - 1\<close>,
  \<open>Reduce(x, cub::Sum())\<close> those of all lanes of the block, and a warp sum those of the
  32 lanes of one warp. The lanes are those of the launched block: the template argument
  of \<open>BlockReduce\<close> (\<open>NumThreads\<close>, or the constant \<open>CAFFE_CUDA_NUM_THREADS\<close>, which the
  file does not define) is taken to agree with the block size.
\<close>

definition BlockReduce_Sum :: "(int \<Rightarrow> real) \<Rightarrow> int \<Rightarrow> real" where
  "BlockReduce_Sum input num_valid = sum_list (map input [0 .. num_valid - 1])"

definition BlockReduce_Reduce :: "real list \<Rightarrow> real" where
  "BlockReduce_Reduce inputs = sum_list inputs"

definition WarpReduce_Sum :: "(int \<Rightarrow> real) \<Rightarrow> int \<Rightarrow> real" where
  "WarpReduce_Sum input warp = sum_list (map input [32 * warp .. 32 * warp + 31])"

text \<open>
  The lanes \<open>txs\<close> of a block run a loop \<open>for (i = threadIdx.x; i < bound; i += bx)\<close> whose
  body updates memory and a lane-local accumulator that starts at 0; the result is the
  accumulator of every lane and the memory. The lanes own different elements, and the
  model runs them one after the other.
\<close>

fun lanes_run ::
  "(int \<Rightarrow> real \<times> mem \<Rightarrow> real \<times> mem) \<Rightarrow> int \<Rightarrow> int \<Rightarrow> int list \<Rightarrow> mem \<Rightarrow> real list \<times> mem" where
  "lanes_run body bound bx [] m = ([], m)"
| "lanes_run body bound bx (tx # txs) m =
     (let (w, m1) = fold body (strided tx bound bx) (0, m);
          (ws, m2) = lanes_run body bound bx txs m1
      in (w # ws, m2))"

subsection \<open>\<open>sparse_adagrad_fused_length_weighted_sum_gradient_kernel\<close>\<close>

text \<open>The body of the inner loop (lines 195-213), on the lane's \<open>w_grad\<close> and memory.\<close>

definition weighted_cell ::
  "kargs \<Rightarrow> nat \<Rightarrow> int \<Rightarrow> real \<Rightarrow> int \<Rightarrow> real \<times> mem \<Rightarrow> real \<times> mem" where
  "weighted_cell k g index in_weight_temp i = (\<lambda>(w_grad, m).
     (let gradIdx = size_t (group_post_int k g i);
          paramIdx = size_t (index_post_int k index i);
          in_grad_temp = grad k gradIdx;
          w_grad1 = w_grad + in_grad_temp * m (Param paramIdx);
          out_grad_temp = in_weight_temp * in_grad_temp + weight_decay k * m (Param paramIdx);
          mom_new = out_grad_temp * out_grad_temp + m (Mom paramIdx);
          m1 = m(Mom paramIdx := mom_new);
          param_new = lr k 0 * out_grad_temp / (sqrt mom_new + epsilon k) + m1 (Param paramIdx)
      in (w_grad1, m1(Param paramIdx := param_new))))"

text \<open>
  One iteration of the outer loop (lines 178-222), by the \<open>NumThreads\<close> lanes of block \<open>g\<close>:
  the weight is read at \<open>line - start\<close>, the lanes update their elements, the reduction
  adds their \<open>w_grad\<close>s and lane 0 stores the sum at \<open>line\<close>.
\<close>

definition weighted_member :: "kargs \<Rightarrow> int \<Rightarrow> nat \<times> int \<Rightarrow> mem \<Rightarrow> mem" where
  "weighted_member k NumThreads c m =
     (case c of (g, line) \<Rightarrow>
       (let start = seg_start (prefix_sum_length_data k) g;
            index = indices k line;
            in_weight_temp = weights k (line - start);
            (ws, m1) = lanes_run (weighted_cell k g index in_weight_temp) (post k) NumThreads
                         [0 .. NumThreads - 1] m;
            w_grad = BlockReduce_Reduce ws
        in m1(WGrad line := w_grad)))"

subsection \<open>\<open>rowwise_sparse_adagrad_fused_length_sum_gradient_kernel\<close>\<close>

text \<open>
  \<open>x_ij\<close> at given offsets into the gradient and the parameter table. The strided branch
  indexes the arrays with the \<open>int\<close> (or \<open>int64_t\<close>) expressions themselves in its first
  loop (lines 305-306) and stores \<open>paramIdx\<close> in a \<open>size_t\<close> in its second (line 321).
\<close>

definition x_ij :: "kargs \<Rightarrow> int \<Rightarrow> int \<Rightarrow> mem \<Rightarrow> real" where
  "x_ij k gradIdx paramIdx m = grad k gradIdx + weight_decay k * m (Param paramIdx)"

text \<open>The first inner loop of a lane (lines 303-308): its share of the sum of squares.\<close>

definition lane_sum_squares :: "kargs \<Rightarrow> nat \<Rightarrow> int \<Rightarrow> int \<Rightarrow> mem \<Rightarrow> int \<Rightarrow> real" where
  "lane_sum_squares k g index bx m tx =
     fold (\<lambda>i sum_squares.
             let x = x_ij k (group_post_int k g i) (index_post_int k index i) m
             in sum_squares + x * x)
       (strided tx (post k) bx) 0"

text \<open>The second inner loop of a lane (lines 320-326).\<close>

definition rowwise_update_lane :: "kargs \<Rightarrow> nat \<Rightarrow> int \<Rightarrow> real \<Rightarrow> int \<Rightarrow> int \<Rightarrow> mem \<Rightarrow> mem" where
  "rowwise_update_lane k g index step bx tx m =
     fold (\<lambda>i m. let paramIdx = size_t (index_post_int k index i);
                     x = x_ij k (group_post_int k g i) paramIdx m;
                     param_new = m (Param paramIdx) + x * step
                 in m(Param paramIdx := param_new))
       (strided tx (post k) bx) m"

text \<open>
  One iteration of the outer loop of the strided branch (lines 296-327), by the \<open>bx\<close>
  lanes of block \<open>g\<close>: lane 0 adds the mean of the squares to the row's moment, and after
  the barrier every lane reads the moment and updates its elements.
\<close>

definition rowwise_member :: "kargs \<Rightarrow> int \<Rightarrow> nat \<times> int \<Rightarrow> mem \<Rightarrow> mem" where
  "rowwise_member k bx c m =
     (case c of (g, line) \<Rightarrow>
       (let index = indices k line;
            valid = min (post k) bx;
            reduce_result = BlockReduce_Sum (lane_sum_squares k g index bx m) valid;
            row_sum_squares_avg = reduce_result / real_of_int (post k);
            mom_new = m (Mom index) + row_sum_squares_avg;
            m1 = m(Mom index := mom_new);
            step = lr k 0 / (sqrt (m1 (Mom index)) + epsilon k)
        in fold (rowwise_update_lane k g index step bx) [0 .. bx - 1] m1))"

text \<open>
  One member in the \<open>ExactBlock\<close> branch (lines 261-289), by the lanes
  \<open>(0 .. bx - 1, threadIdx.y)\<close> that own it. Lane \<open>tx\<close> holds \<open>x_ij\<close> of element \<open>tx\<close>. The
  host launches this branch with \<open>blockDim.x = post\<close> a multiple of 32, so the lanes of a
  member are the whole warps \<open>0 .. bx div 32 - 1\<close> of its row of lanes: the first lane of
  each adds its warp's sum, over \<open>post\<close>, to the row's moment with \<open>gpuAtomicAdd\<close>. After
  the barrier every lane reads the moment and updates its element with the \<open>x_ij\<close> it
  computed before. The source passes the quotient through the block-shared variable
  \<open>row_sum_squares_avg\<close>; here every first lane adds the value it computed itself.
\<close>

definition rowwise_exact_member :: "kargs \<Rightarrow> int \<Rightarrow> nat \<times> int \<Rightarrow> mem \<Rightarrow> mem" where
  "rowwise_exact_member k bx c m =
     (case c of (g, line) \<Rightarrow>
       (let gradIdx = (\<lambda>tx. size_t (group_post_unsigned k g tx));
            index = indices k line;
            paramIdx = (\<lambda>tx. size_t (index_post_unsigned k index tx));
            x = (\<lambda>tx. x_ij k (gradIdx tx) (paramIdx tx) m);
            sum_squares = (\<lambda>tx. x tx * x tx);
            m1 = fold (\<lambda>warp m'.
                        let reduce_result = WarpReduce_Sum sum_squares warp;
                            row_sum_squares_avg = reduce_result / real_of_int (post k)
                        in m'(Mom index := m' (Mom index) + row_sum_squares_avg))
                   [0 .. bx div 32 - 1] m;
            step = lr k 0 / (sqrt (m1 (Mom index)) + epsilon k)
        in fold (\<lambda>tx m'. m'(Param (paramIdx tx) := m' (Param (paramIdx tx)) + x tx * step))
             [0 .. bx - 1] m1))"

subsection \<open>\<open>rowwise_sparse_adagrad_fused_length_weighted_sum_gradient_kernel\<close>\<close>

text \<open>The body of the second inner loop (lines 399-412), on the lane's \<open>w_grad\<close> and memory.\<close>

definition rowwise_weighted_cell ::
  "kargs \<Rightarrow> nat \<Rightarrow> int \<Rightarrow> real \<Rightarrow> real \<Rightarrow> int \<Rightarrow> real \<times> mem \<Rightarrow> real \<times> mem" where
  "rowwise_weighted_cell k g index in_weight_temp step i = (\<lambda>(w_grad, m).
     (let gradIdx = size_t (group_post_int k g i);
          paramIdx = size_t (index_post_int k index i);
          in_grad_temp = grad k gradIdx;
          w_grad1 = w_grad + in_grad_temp * m (Param paramIdx);
          out_grad_temp = in_weight_temp * in_grad_temp + weight_decay k * m (Param paramIdx)
      in (w_grad1, m(Param paramIdx := out_grad_temp * step + m (Param paramIdx)))))"

text \<open>One iteration of the outer loop (lines 372-419), by the \<open>NumThreads\<close> lanes of block \<open>g\<close>.\<close>

definition rowwise_weighted_member :: "kargs \<Rightarrow> int \<Rightarrow> nat \<times> int \<Rightarrow> mem \<Rightarrow> mem" where
  "rowwise_weighted_member k NumThreads c m =
     (case c of (g, line) \<Rightarrow>
       (let start = seg_start (prefix_sum_length_data k) g;
            valid = min (post k) NumThreads;
            index = indices k line;
            in_weight_temp = weights k (line - start);
            reduce_result = BlockReduce_Sum (lane_sum_squares k g index NumThreads m) valid;
            row_sum_squares_avg = reduce_result / real_of_int (post k);
            m1 = m(Mom index := m (Mom index) + row_sum_squares_avg * in_weight_temp * in_weight_temp);
            step = lr k 0 / (sqrt (m1 (Mom index)) + epsilon k);
            (ws, m2) = lanes_run (rowwise_weighted_cell k g index in_weight_temp step) (post k)
                         NumThreads [0 .. NumThreads - 1] m1;
            w_grad = BlockReduce_Reduce ws
        in m2(WGrad line := w_grad)))"

subsection \<open>The kernel bodies with unbounded offsets\<close>

text \<open>
  The bodies above with every offset computed in the integers, \<open>group * post + i\<close> and
  \<open>index * post + i\<close> without conversion or wrap-around. They are not a second model of
  the kernels: they stand between the kernels and the sequential reference in the
  proofs, and a kernel body agrees with its counterpart here on a member whose offsets
  fit their types (\<open>member_fits\<close> below).
\<close>

definition ideal_adagrad_cell :: "kargs \<Rightarrow> nat \<Rightarrow> int \<Rightarrow> int \<Rightarrow> mem \<Rightarrow> mem" where
  "ideal_adagrad_cell k g line i m =
     (let index = indices k line;
          gradIdx = int g * post k + i;
          paramIdx = index * post k + i;
          gi = grad k gradIdx + weight_decay k * m (Param paramIdx);
          mom_new = gi * gi + m (Mom paramIdx);
          m1 = m(Mom paramIdx := mom_new);
          param_new = lr k 0 * gi / (sqrt mom_new + epsilon k) + m1 (Param paramIdx)
      in m1(Param paramIdx := param_new))"

definition ideal_sum_cell_step :: "kargs \<Rightarrow> nat \<times> int \<times> int \<Rightarrow> mem \<Rightarrow> mem" where
  "ideal_sum_cell_step k c = (case c of (g, line, i) \<Rightarrow> ideal_adagrad_cell k g line i)"










subsection \<open>The sequential reference\<close>

text \<open>
  The update of one member as the spec words it (sections 4.2 to 4.5), element by element
  of row \<open>row = indices[line]\<close> of width \<open>D = post\<close>; \<open>in_row D row a\<close> says that offset \<open>a\<close>
  of a table is element \<open>a - row * D\<close> of that row. The reference processes the members
  one at a time, in the order it is given.
\<close>

definition in_row :: "int \<Rightarrow> int \<Rightarrow> int \<Rightarrow> bool" where
  "in_row D row a = (row * D \<le> a \<and> a < row * D + D)"

definition effective_grad :: "kargs \<Rightarrow> nat \<Rightarrow> int \<Rightarrow> int \<Rightarrow> mem \<Rightarrow> real" where
  "effective_grad k g row e m =
     grad k (int g * post k + e) + weight_decay k * m (Param (row * post k + e))"

definition out_grad :: "kargs \<Rightarrow> real \<Rightarrow> nat \<Rightarrow> int \<Rightarrow> int \<Rightarrow> mem \<Rightarrow> real" where
  "out_grad k w g row e m =
     w * grad k (int g * post k + e) + weight_decay k * m (Param (row * post k + e))"

definition weight_grad :: "kargs \<Rightarrow> nat \<Rightarrow> int \<Rightarrow> mem \<Rightarrow> real" where
  "weight_grad k g row m =
     sum_list (map (\<lambda>e. grad k (int g * post k + e) * m (Param (row * post k + e))) [0 .. post k - 1])"

definition row_energy :: "kargs \<Rightarrow> nat \<Rightarrow> int \<Rightarrow> mem \<Rightarrow> real" where
  "row_energy k g row m =
     sum_list (map (\<lambda>e. (effective_grad k g row e m)\<^sup>2) [0 .. post k - 1]) / real_of_int (post k)"

definition ref_exact_member :: "kargs \<Rightarrow> nat \<times> int \<Rightarrow> mem \<Rightarrow> mem" where
  "ref_exact_member k c m = (case c of (g, line) \<Rightarrow> (\<lambda>l.
     let row = indices k line in
     case l of
       Param a \<Rightarrow>
         if in_row (post k) row a
         then (let eg = effective_grad k g row (a - row * post k) m;
                   accumulator_new = m (Mom a) + eg\<^sup>2
               in m (Param a) + lr k 0 * eg / (sqrt accumulator_new + epsilon k))
         else m l
     | Mom a \<Rightarrow>
         if in_row (post k) row a
         then m (Mom a) + (effective_grad k g row (a - row * post k) m)\<^sup>2
         else m l
     | WGrad j \<Rightarrow> m l))"

definition ref_weighted_member :: "kargs \<Rightarrow> nat \<times> int \<Rightarrow> mem \<Rightarrow> mem" where
  "ref_weighted_member k c m = (case c of (g, line) \<Rightarrow> (\<lambda>l.
     let row = indices k line;
         w = weights k (line - seg_start (prefix_sum_length_data k) g) in
     case l of
       Param a \<Rightarrow>
         if in_row (post k) row a
         then (let og = out_grad k w g row (a - row * post k) m;
                   accumulator_new = m (Mom a) + og\<^sup>2
               in m (Param a) + lr k 0 * og / (sqrt accumulator_new + epsilon k))
         else m l
     | Mom a \<Rightarrow>
         if in_row (post k) row a
         then m (Mom a) + (out_grad k w g row (a - row * post k) m)\<^sup>2
         else m l
     | WGrad j \<Rightarrow> if j = line then weight_grad k g row m else m l))"


definition ref_rowwise_weighted_member :: "kargs \<Rightarrow> nat \<times> int \<Rightarrow> mem \<Rightarrow> mem" where
  "ref_rowwise_weighted_member k c m = (case c of (g, line) \<Rightarrow> (\<lambda>l.
     let row = indices k line;
         w = weights k (line - seg_start (prefix_sum_length_data k) g);
         accumulator_new = m (Mom row) + w\<^sup>2 * row_energy k g row m;
         step = lr k 0 / (sqrt accumulator_new + epsilon k) in
     case l of
       Param a \<Rightarrow>
         if in_row (post k) row a
         then m (Param a) + out_grad k w g row (a - row * post k) m * step
         else m l
     | Mom a \<Rightarrow> if a = row then accumulator_new else m l
     | WGrad j \<Rightarrow> if j = line then weight_grad k g row m else m l))"

definition reference :: "(nat \<times> int \<Rightarrow> mem \<Rightarrow> mem) \<Rightarrow> (nat \<times> int) list \<Rightarrow> mem \<Rightarrow> mem" where
  "reference member order m = fold member order m"

subsection \<open>The locations of a member's row\<close>

text \<open>
  The locations of the dense row-major tables that belong to a member, as the spec lays
  the tables out: element \<open>i\<close> of row \<open>indices[line]\<close> is at offset \<open>indices[line] * post + i\<close>
  of both tables. The reference touches these locations of a member and no others: its row
  in both tables for the per-element operators, its row of the parameter table and the
  one moment of the row for the row-wise ones, and the member's weight gradient for the
  weighted ones. A kernel touches them when the member's offsets fit their types.
\<close>

definition cell_locs :: "kargs \<Rightarrow> nat \<times> int \<times> int \<Rightarrow> loc set" where
  "cell_locs k c = (case c of (g, line, i) \<Rightarrow>
     {Param (indices k line * post k + i), Mom (indices k line * post k + i)})"





subsection \<open>Well-formed batches\<close>

text \<open>
  The kernel arguments \<open>k\<close> belong to the batch of segment lengths \<open>ls\<close>: the lengths are
  not negative, there is one block per segment, and the offsets are the scan of the
  lengths.
\<close>

definition segments_of :: "kargs \<Rightarrow> int list \<Rightarrow> bool" where
  "segments_of k ls =
     (list_all (\<lambda>x. 0 \<le> x) ls \<and> len_length k = int (length ls) \<and>
      prefix_sum_length_data k = inclusive_scan_wrapper ls (len_length k))"

text \<open>
  The offsets of a member fit their types: its index is not negative, the last element of
  its row, \<open>index * post + post - 1\<close>, is below \<open>2\<^sup>3\<^sup>1\<close> for \<open>int32_t\<close> indices and below \<open>2\<^sup>6\<^sup>3\<close>
  for \<open>int64_t\<close> ones, and the last element of its segment's gradient row,
  \<open>group * post + post - 1\<close>, is below \<open>2\<^sup>3\<^sup>1\<close>. It holds of every member when the indices are
  rows of the table and neither the table nor the gradient has more than \<open>2\<^sup>3\<^sup>1\<close> elements.
\<close>

definition SIndex_limit :: "sindex \<Rightarrow> int" where
  "SIndex_limit T = (case T of int32_t \<Rightarrow> 2 ^ 31 | int64_t \<Rightarrow> 2 ^ 63)"

definition member_fits :: "kargs \<Rightarrow> nat \<times> int \<Rightarrow> bool" where
  "member_fits k c = (case c of (g, line) \<Rightarrow>
     0 \<le> indices k line \<and> (indices k line + 1) * post k \<le> SIndex_limit (SIndex k) \<and>
     (int g + 1) * post k \<le> 2 ^ 31)"

definition batch_fits :: "kargs \<Rightarrow> bool" where
  "batch_fits k = list_all (member_fits k) (kernel_members k)"

text \<open>All index values of the batch are pairwise distinct.\<close>

definition unique_indices :: "kargs \<Rightarrow> int list \<Rightarrow> bool" where
  "unique_indices k ls = distinct (map (indices k) [0 .. sum_list ls - 1])"

subsection \<open>Host code: the four operators\<close>

text \<open>
  A tensor is its shape and its data. The data of the parameter and moment tensors (the
  outputs alias the inputs: the update is in place) and of the weight-gradient output
  live in device memory; the other inputs are read-only. \<open>maxThreads\<close> is the device
  property \<open>maxThreadsPerBlock\<close>.
\<close>

record op_inputs =
  PARAM_dims :: "int list"
  MOMENT_1_dims :: "int list"
  AUX_PARAM_dims :: "int list"
  AUX_PARAM_data :: "int \<Rightarrow> real"
  INDICES_type :: sindex
  INDICES_dims :: "int list"
  INDICES_data :: "int \<Rightarrow> int"
  GRAD_dims :: "int list"
  GRAD_data :: "int \<Rightarrow> real"
  LR_dims :: "int list"
  LR_data :: "int \<Rightarrow> real"
  LENGTHS_dims :: "int list"
  LENGTHS_data :: "int list"

record op_attrs =
  op_epsilon :: real
  op_weight_decay :: real

text \<open>
  What a run leaves behind when it returns \<open>true\<close>: whether a kernel was launched, the
  shape of the weight-gradient output if the run allocated it, and device memory.
\<close>

record op_output =
  kernel_launched :: bool
  AUX_GRAD_dims :: "int list option"
  memory :: mem

definition numel :: "int list \<Rightarrow> int" where
  "numel dims = prod_list dims"

definition size_from_dim :: "nat \<Rightarrow> int list \<Rightarrow> int" where
  "size_from_dim d dims = prod_list (drop d dims)"

text \<open>\<open>Tensor::dim(i)\<close> throws when the tensor has no dimension \<open>i\<close>.\<close>

definition dim_at :: "int list \<Rightarrow> nat \<Rightarrow> error + int" where
  "dim_at dims i = (if i < length dims then Inr (dims ! i) else Inl EnforceNotMet)"

definition enforce :: "bool \<Rightarrow> error + 'a \<Rightarrow> error + 'a" where
  "enforce b rest = (if b then rest else Inl EnforceNotMet)"

text \<open>The value of the macro on CUDA (line 15); on HIP it is 8.\<close>

definition SEGREDUCE_MINBLOCKS :: int where
  "SEGREDUCE_MINBLOCKS = 16"

text \<open>The arguments every \<open>DoRunWithType2\<close> passes to its kernel.\<close>

definition op_kargs :: "op_attrs \<Rightarrow> op_inputs \<Rightarrow> kargs" where
  "op_kargs attrs inp =
     (let len_length = LENGTHS_dims inp ! 0;
          output_0dim = INDICES_dims inp ! 0
      in \<lparr> SIndex = INDICES_type inp,
           prefix_sum_length_data = inclusive_scan_wrapper (LENGTHS_data inp) len_length,
           N = output_0dim,
           post = size_from_dim 1 (GRAD_dims inp),
           len_length = len_length,
           epsilon = op_epsilon attrs,
           indices = INDICES_data inp,
           grad = GRAD_data inp,
           weights = AUX_PARAM_data inp,
           lr = LR_data inp,
           weight_decay = op_weight_decay attrs \<rparr>)"

definition launched :: "int list option \<Rightarrow> error + mem \<Rightarrow> error + op_output" where
  "launched aux r =
     (case r of Inl e \<Rightarrow> Inl e
      | Inr m' \<Rightarrow> Inr \<lparr> kernel_launched = True, AUX_GRAD_dims = aux, memory = m' \<rparr>)"

definition not_launched :: "int list option \<Rightarrow> mem \<Rightarrow> error + op_output" where
  "not_launched aux m = Inr \<lparr> kernel_launched = False, AUX_GRAD_dims = aux, memory = m \<rparr>"

paragraph \<open>\<open>CUDASparseAdagradFusedWithSparseLengthsSumGradientOp\<close>\<close>

text \<open>
  The block shape of the launch (lines 520-560): \<open>ExactBlock\<close> with a block of
  \<open>post\<close> by \<open>multiple\<close> threads when a row fits a block, else \<open>maxThreads\<close> threads.
\<close>

definition Sum_config :: "int \<Rightarrow> int \<Rightarrow> bool \<times> int \<times> int" where
  "Sum_config maxThreads post' =
     (if post' \<le> maxThreads
      then (True, post', min (maxThreads div post') SEGREDUCE_MINBLOCKS)
      else (False, maxThreads, 1))"

definition Sum_work :: "int \<Rightarrow> op_attrs \<Rightarrow> op_inputs \<Rightarrow> (nat \<times> int \<times> int) list" where
  "Sum_work maxThreads attrs inp =
     (let k = op_kargs attrs inp; c = Sum_config maxThreads (post k)
      in sum_kernel_cells (fst c) k (snd c))"

definition Sum_DoRunWithType2 ::
  "int \<Rightarrow> op_attrs \<Rightarrow> op_inputs \<Rightarrow> (nat \<times> int \<times> int) list \<Rightarrow> mem \<Rightarrow> error + op_output" where
  "Sum_DoRunWithType2 maxThreads attrs inp sched m =
     enforce (1 = length (LENGTHS_dims inp))
    (enforce (length (GRAD_dims inp) > 0)
    (enforce (numel (PARAM_dims inp) = numel (MOMENT_1_dims inp))
    (enforce (LENGTHS_dims inp ! 0 = GRAD_dims inp ! 0)
    (case dim_at (INDICES_dims inp) 0 of
       Inl e \<Rightarrow> Inl e
     | Inr output_0dim \<Rightarrow>
         if LENGTHS_dims inp ! 0 \<le> 0 then not_launched None m
         else let k = op_kargs attrs inp
              in if post k \<le> maxThreads
                 then if post k = 0 then Inl DivideByZero
                      else launched None (launch k (sum_cell_step True k) sched m)
                 else launched None (launch k (sum_cell_step False k) sched m)))))"

definition Sum_DoRunWithType ::
  "int \<Rightarrow> op_attrs \<Rightarrow> op_inputs \<Rightarrow> (nat \<times> int \<times> int) list \<Rightarrow> mem \<Rightarrow> error + op_output" where
  "Sum_DoRunWithType maxThreads attrs inp sched m =
     (let n = numel (INDICES_dims inp)
      in if n = 0 then not_launched None m
         else Sum_DoRunWithType2 maxThreads attrs inp sched m)"

definition Sum_RunOnDevice ::
  "int \<Rightarrow> op_attrs \<Rightarrow> op_inputs \<Rightarrow> (nat \<times> int \<times> int) list \<Rightarrow> mem \<Rightarrow> error + op_output" where
  "Sum_RunOnDevice maxThreads attrs inp sched m =
     enforce (numel (PARAM_dims inp) = numel (MOMENT_1_dims inp))
    (enforce (numel (LR_dims inp) = 1)
    (enforce (size_from_dim 1 (PARAM_dims inp) =
              size_from_dim (length (INDICES_dims inp)) (GRAD_dims inp))
    (Sum_DoRunWithType maxThreads attrs inp sched m)))"

paragraph \<open>\<open>CUDASparseAdagradFusedWithSparseLengthsWeightedSumGradientOp\<close>\<close>

text \<open>The template argument \<open>NumThreads\<close>, which is also the block size (lines 681-757).\<close>

definition WeightedSum_NumThreads :: "int \<Rightarrow> int" where
  "WeightedSum_NumThreads post' =
     (if post' > 128 then 512 else if post' > 64 then 128 else if post' > 32 then 64 else 32)"

definition WeightedSum_DoRunWithType2 ::
  "int \<Rightarrow> op_attrs \<Rightarrow> op_inputs \<Rightarrow> (nat \<times> int) list \<Rightarrow> mem \<Rightarrow> error + op_output" where
  "WeightedSum_DoRunWithType2 maxThreads attrs inp sched m =
     enforce (1 = length (LENGTHS_dims inp))
    (enforce (1 = length (AUX_PARAM_dims inp))
    (enforce (length (GRAD_dims inp) > 0)
    (enforce (numel (PARAM_dims inp) = numel (MOMENT_1_dims inp))
    (enforce (LENGTHS_dims inp ! 0 = GRAD_dims inp ! 0)
    (case dim_at (INDICES_dims inp) 0 of
       Inl e \<Rightarrow> Inl e
     | Inr output_0dim \<Rightarrow>
         if LENGTHS_dims inp ! 0 \<le> 0 then not_launched (Some (INDICES_dims inp)) m
         else let k = op_kargs attrs inp
              in launched (Some (INDICES_dims inp))
                   (launch k (weighted_member k (WeightedSum_NumThreads (post k))) sched m))))))"

definition WeightedSum_DoRunWithType ::
  "int \<Rightarrow> op_attrs \<Rightarrow> op_inputs \<Rightarrow> (nat \<times> int) list \<Rightarrow> mem \<Rightarrow> error + op_output" where
  "WeightedSum_DoRunWithType maxThreads attrs inp sched m =
     (let n = numel (INDICES_dims inp)
      in if n = 0 then not_launched (Some [n]) m
         else WeightedSum_DoRunWithType2 maxThreads attrs inp sched m)"

definition WeightedSum_RunOnDevice ::
  "int \<Rightarrow> op_attrs \<Rightarrow> op_inputs \<Rightarrow> (nat \<times> int) list \<Rightarrow> mem \<Rightarrow> error + op_output" where
  "WeightedSum_RunOnDevice maxThreads attrs inp sched m =
     enforce (numel (PARAM_dims inp) = numel (MOMENT_1_dims inp))
    (enforce (numel (LR_dims inp) = 1)
    (enforce (size_from_dim 1 (PARAM_dims inp) =
              size_from_dim (length (INDICES_dims inp)) (GRAD_dims inp))
    (WeightedSum_DoRunWithType maxThreads attrs inp sched m)))"

paragraph \<open>\<open>CUDARowWiseSparseAdagradFusedWithSparseLengthsSumGradientOp\<close>\<close>

text \<open>
  The fast path (lines 868-889) takes rows of a multiple of 32 elements that fit half a
  block; its schedule is over the members as the two-dimensional block walks them. The
  other path (lines 890-911) runs \<open>min(maxThreads, post)\<close> lanes per block.
\<close>

definition RowWise_exact :: "int \<Rightarrow> int \<Rightarrow> bool" where
  "RowWise_exact maxThreads post' = (post' \<le> maxThreads div 2 \<and> post' mod 32 = 0)"


definition RowWise_DoRunWithType2 ::
  "int \<Rightarrow> op_attrs \<Rightarrow> op_inputs \<Rightarrow> (nat \<times> int) list \<Rightarrow> mem \<Rightarrow> error + op_output" where
  "RowWise_DoRunWithType2 maxThreads attrs inp sched m =
     enforce (1 = length (LENGTHS_dims inp))
    (enforce (length (GRAD_dims inp) > 0)
    (case dim_at (PARAM_dims inp) 0 of Inl e \<Rightarrow> Inl e | Inr param_rows \<Rightarrow>
     case dim_at (MOMENT_1_dims inp) 0 of Inl e \<Rightarrow> Inl e | Inr moment_rows \<Rightarrow>
     enforce (param_rows = moment_rows)
    (enforce (LENGTHS_dims inp ! 0 = GRAD_dims inp ! 0)
    (case dim_at (INDICES_dims inp) 0 of
       Inl e \<Rightarrow> Inl e
     | Inr output_0dim \<Rightarrow>
         if LENGTHS_dims inp ! 0 \<le> 0 then not_launched None m
         else let k = op_kargs attrs inp
              in if RowWise_exact maxThreads (post k)
                 then if post k = 0 then Inl DivideByZero
                      else launched None (launch k (rowwise_exact_member k (post k)) sched m)
                 else launched None
                        (launch k (rowwise_member k (min maxThreads (post k))) sched m)))))"

definition RowWise_DoRunWithType ::
  "int \<Rightarrow> op_attrs \<Rightarrow> op_inputs \<Rightarrow> (nat \<times> int) list \<Rightarrow> mem \<Rightarrow> error + op_output" where
  "RowWise_DoRunWithType maxThreads attrs inp sched m =
     (let n = numel (INDICES_dims inp)
      in if n = 0 then not_launched None m
         else RowWise_DoRunWithType2 maxThreads attrs inp sched m)"

definition RowWise_RunOnDevice ::
  "int \<Rightarrow> op_attrs \<Rightarrow> op_inputs \<Rightarrow> (nat \<times> int) list \<Rightarrow> mem \<Rightarrow> error + op_output" where
  "RowWise_RunOnDevice maxThreads attrs inp sched m =
     enforce (numel (LR_dims inp) = 1)
    (enforce (size_from_dim 1 (PARAM_dims inp) =
              size_from_dim (length (INDICES_dims inp)) (GRAD_dims inp))
    (RowWise_DoRunWithType maxThreads attrs inp sched m))"

paragraph \<open>\<open>CUDARowWiseSparseAdagradFusedWithSparseLengthsWeightedSumGradientOp\<close>\<close>

definition RowWiseWeighted_DoRunWithType2 ::
  "int \<Rightarrow> op_attrs \<Rightarrow> op_inputs \<Rightarrow> (nat \<times> int) list \<Rightarrow> mem \<Rightarrow> error + op_output" where
  "RowWiseWeighted_DoRunWithType2 maxThreads attrs inp sched m =
     enforce (1 = length (LENGTHS_dims inp))
    (enforce (1 = length (AUX_PARAM_dims inp))
    (enforce (length (GRAD_dims inp) > 0)
    (case dim_at (PARAM_dims inp) 0 of Inl e \<Rightarrow> Inl e | Inr param_rows \<Rightarrow>
     case dim_at (MOMENT_1_dims inp) 0 of Inl e \<Rightarrow> Inl e | Inr moment_rows \<Rightarrow>
     enforce (param_rows = moment_rows)
    (enforce (LENGTHS_dims inp ! 0 = GRAD_dims inp ! 0)
    (case dim_at (INDICES_dims inp) 0 of
       Inl e \<Rightarrow> Inl e
     | Inr output_0dim \<Rightarrow>
         if LENGTHS_dims inp ! 0 \<le> 0 then not_launched (Some (INDICES_dims inp)) m
         else let k = op_kargs attrs inp
              in launched (Some (INDICES_dims inp))
                   (launch k (rowwise_weighted_member k (WeightedSum_NumThreads (post k)))
                      sched m))))))"

definition RowWiseWeighted_DoRunWithType ::
  "int \<Rightarrow> op_attrs \<Rightarrow> op_inputs \<Rightarrow> (nat \<times> int) list \<Rightarrow> mem \<Rightarrow> error + op_output" where
  "RowWiseWeighted_DoRunWithType maxThreads attrs inp sched m =
     (let n = numel (INDICES_dims inp)
      in if n = 0 then not_launched (Some [n]) m
         else RowWiseWeighted_DoRunWithType2 maxThreads attrs inp sched m)"

definition RowWiseWeighted_RunOnDevice ::
  "int \<Rightarrow> op_attrs \<Rightarrow> op_inputs \<Rightarrow> (nat \<times> int) list \<Rightarrow> mem \<Rightarrow> error + op_output" where
  "RowWiseWeighted_RunOnDevice maxThreads attrs inp sched m =
     enforce (numel (LR_dims inp) = 1)
    (enforce (size_from_dim 1 (PARAM_dims inp) =
              size_from_dim (length (INDICES_dims inp)) (GRAD_dims inp))
    (RowWiseWeighted_DoRunWithType maxThreads attrs inp sched m))"

subsection \<open>The data model of a call\<close>

text \<open>
  The shapes of section 3 of the spec: a parameter table of \<open>N\<close> rows and \<open>D > 0\<close> columns,
  a moment table of the same shape (or of \<open>N\<close> entries, row-wise), \<open>M\<close> indices, \<open>S\<close>
  non-negative lengths of sum \<open>M\<close>, a segment gradient of \<open>S\<close> by \<open>D\<close>, one learning rate
  and, for the weighted operators, \<open>M\<close> weights.
\<close>

definition well_shaped :: "bool \<Rightarrow> bool \<Rightarrow> op_inputs \<Rightarrow> bool" where
  "well_shaped rowwise weighted inp =
     (length (PARAM_dims inp) = 2 \<and> 0 \<le> PARAM_dims inp ! 0 \<and> 0 < PARAM_dims inp ! 1 \<and>
      MOMENT_1_dims inp = (if rowwise then [PARAM_dims inp ! 0] else PARAM_dims inp) \<and>
      INDICES_dims inp = [sum_list (LENGTHS_data inp)] \<and>
      LENGTHS_dims inp = [int (length (LENGTHS_data inp))] \<and>
      list_all (\<lambda>x. 0 \<le> x) (LENGTHS_data inp) \<and>
      GRAD_dims inp = [int (length (LENGTHS_data inp)), PARAM_dims inp ! 1] \<and>
      LR_dims inp = [1] \<and>
      (if weighted then AUX_PARAM_dims inp = INDICES_dims inp else True))"

subsection \<open>Example calls\<close>

text \<open>
  The end-to-end example of the spec: three rows of two columns, lengths \<open>[1, 2]\<close>,
  indices \<open>[0, 1, 2]\<close>, gradient \<open>[[1, 1], [2, 2]]\<close>, learning rate 0.1, epsilon 1e-5, no
  weight decay, parameters and moments all zero. The weights \<open>[3, 4, 5]\<close> serve the weighted
  operators, and the row-wise operators take a moment table of three entries.
\<close>

definition ex_attrs :: op_attrs where
  "ex_attrs = \<lparr> op_epsilon = 1 / 100000, op_weight_decay = 0 \<rparr>"

definition ex_inp :: op_inputs where
  "ex_inp = \<lparr> PARAM_dims = [3, 2], MOMENT_1_dims = [3, 2],
              AUX_PARAM_dims = [3], AUX_PARAM_data = (\<lambda>i. real_of_int i + 3),
              INDICES_type = int32_t, INDICES_dims = [3], INDICES_data = (\<lambda>i. i),
              GRAD_dims = [2, 2], GRAD_data = (\<lambda>a. if a < 2 then 1 else 2),
              LR_dims = [1], LR_data = (\<lambda>i. 1 / 10),
              LENGTHS_dims = [2], LENGTHS_data = [1, 2] \<rparr>"


definition ex_mem :: mem where
  "ex_mem = (\<lambda>l. 0)"

text \<open>
  A call with one segment of one member on a table of two rows of one column, whose only
  index is 5.
\<close>

definition ex_inp_out_of_range :: op_inputs where
  "ex_inp_out_of_range = \<lparr> PARAM_dims = [2, 1], MOMENT_1_dims = [2, 1],
              AUX_PARAM_dims = [1], AUX_PARAM_data = (\<lambda>i. 1),
              INDICES_type = int32_t, INDICES_dims = [1], INDICES_data = (\<lambda>i. 5),
              GRAD_dims = [1, 1], GRAD_data = (\<lambda>a. 1),
              LR_dims = [1], LR_data = (\<lambda>i. 1),
              LENGTHS_dims = [1], LENGTHS_data = [1] \<rparr>"





definition ex_mem_row1 :: mem where
  "ex_mem_row1 = (\<lambda>l. 0)(Param 2 := 7, Param 3 := 8, Mom 2 := 9, Mom 1 := 6)"

text \<open>
  The example on a table of two rows only, every index 0: the three members fit the
  index array but the last offset, 3, exceeds the number of rows. And the example with no
  members: two segments of length 0.
\<close>

definition ex_inp_two_rows :: op_inputs where
  "ex_inp_two_rows = ex_inp \<lparr> PARAM_dims := [2, 2], MOMENT_1_dims := [2, 2],
      INDICES_data := (\<lambda>i. 0) \<rparr>"

definition ex_inp_empty :: op_inputs where
  "ex_inp_empty = ex_inp \<lparr> INDICES_dims := [0], AUX_PARAM_dims := [0], LENGTHS_data := [0, 0] \<rparr>"

text \<open>
  A call with no segments whose index array still has three entries; it reaches the
  check of the segment count in \<open>DoRunWithType2\<close>.
\<close>

definition ex_inp_no_segments :: op_inputs where
  "ex_inp_no_segments = ex_inp \<lparr> GRAD_dims := [0, 2], LENGTHS_dims := [0], LENGTHS_data := [] \<rparr>"



subsection \<open>Facts about the segment offsets\<close>

lemma length_scan_from: "length (scan_from acc xs) = length xs"
  by (induction xs arbitrary: acc) auto

lemma nth_scan_from:
  "i < length xs \<Longrightarrow> scan_from acc xs ! i = acc + sum_list (take (Suc i) xs)"
proof (induction xs arbitrary: acc i)
  case Nil
  then show ?case by simp
next
  case (Cons x xs)
  show ?case
  proof (cases i)
    case 0
    then show ?thesis by simp
  next
    case (Suc j)
    with Cons.prems have "j < length xs" by simp
    from Cons.IH [OF this, of "acc + x"] Suc show ?thesis by simp
  qed
qed

lemma length_scan_wrapper:
  "length (inclusive_scan_wrapper ls (int (length ls))) = length ls"
  by (simp add: inclusive_scan_wrapper_def InclusiveSum_def length_scan_from)

lemma nth_scan_wrapper:
  "i < length ls \<Longrightarrow>
   inclusive_scan_wrapper ls (int (length ls)) ! i = sum_list (take (Suc i) ls)"
  by (simp add: inclusive_scan_wrapper_def InclusiveSum_def nth_scan_from)

lemma sum_list_take_mono:
  assumes "\<forall>x \<in> set ls. (0::int) \<le> x" and "j \<le> i"
  shows "sum_list (take j ls) \<le> sum_list (take i ls)"
proof -
  from \<open>j \<le> i\<close> have "take i ls = take j ls @ take (i - j) (drop j ls)"
    by (metis le_add_diff_inverse take_add)
  moreover have "0 \<le> sum_list (take (i - j) (drop j ls))"
    using assms(1) by (intro sum_list_nonneg) (auto dest!: in_set_takeD in_set_dropD)
  ultimately show ?thesis by simp
qed

lemma seg_start_scan:
  "g < length ls \<Longrightarrow>
   seg_start (inclusive_scan_wrapper ls (int (length ls))) g = sum_list (take g ls)"
  by (cases g) (simp_all add: seg_start_def nth_scan_wrapper)

lemma seg_end_scan:
  "g < length ls \<Longrightarrow>
   seg_end (inclusive_scan_wrapper ls (int (length ls))) g = sum_list (take (Suc g) ls)"
  by (simp add: seg_end_def nth_scan_wrapper)

lemma seg_end_start:
  "g < length ls \<Longrightarrow>
   seg_end (inclusive_scan_wrapper ls (int (length ls))) g =
   seg_start (inclusive_scan_wrapper ls (int (length ls))) g + ls ! g"
  by (simp add: seg_start_scan seg_end_scan take_Suc_conv_app_nth)

text \<open>
  Claim C3. For non-negative lengths \<open>ls\<close> (\<open>S\<close> of them, with sum \<open>M\<close>) the offsets are the
  inclusive prefix sums: there are \<open>S\<close> of them, entry \<open>i\<close> is the sum of the lengths
  \<open>0..i\<close>, they never decrease, consecutive entries differ by the length of the segment,
  the last one is \<open>M\<close>, and the kernel's \<open>start\<close> and \<open>end\<close> of segment \<open>i\<close> are the offset
  before it (0 for the first segment) and its own offset.
\<close>

theorem offsets_inclusive_prefix_sum:
  assumes nonneg: "\<forall>x \<in> set ls. 0 \<le> x"
    and offs: "offs = inclusive_scan_wrapper ls (int (length ls))"
  shows "length offs = length ls
    \<and> (\<forall>i < length ls. offs ! i = sum_list (take (Suc i) ls))
    \<and> (\<forall>i < length ls. \<forall>j \<le> i. offs ! j \<le> offs ! i)
    \<and> (\<forall>i < length ls. 0 < i \<longrightarrow> offs ! i - offs ! (i - 1) = ls ! i)
    \<and> (ls \<noteq> [] \<longrightarrow> offs ! (length ls - 1) = sum_list ls)
    \<and> (\<forall>i < length ls. seg_start offs i = (if i = 0 then 0 else offs ! (i - 1))
           \<and> seg_end offs i = offs ! i
           \<and> seg_end offs i - seg_start offs i = ls ! i
           \<and> seg_start offs i \<le> seg_end offs i)"
proof -
  have c1: "length offs = length ls"
    by (simp add: offs length_scan_wrapper)
  have c2: "\<forall>i < length ls. offs ! i = sum_list (take (Suc i) ls)"
    by (simp add: offs nth_scan_wrapper)
  have c3: "\<forall>i < length ls. \<forall>j \<le> i. offs ! j \<le> offs ! i"
    using nonneg by (simp add: offs nth_scan_wrapper sum_list_take_mono)
  have c4: "\<forall>i < length ls. 0 < i \<longrightarrow> offs ! i - offs ! (i - 1) = ls ! i"
  proof (intro allI impI)
    fix i assume "i < length ls" "0 < i"
    then obtain j where "i = Suc j" by (cases i) auto
    with \<open>i < length ls\<close> show "offs ! i - offs ! (i - 1) = ls ! i"
      by (simp add: offs nth_scan_wrapper take_Suc_conv_app_nth)
  qed
  have c5: "ls \<noteq> [] \<longrightarrow> offs ! (length ls - 1) = sum_list ls"
  proof
    assume "ls \<noteq> []"
    then have "length ls - 1 < length ls" by simp
    from nth_scan_wrapper [OF this] \<open>ls \<noteq> []\<close> show "offs ! (length ls - 1) = sum_list ls"
      by (simp add: offs)
  qed
  have c6: "\<forall>i < length ls. seg_start offs i = (if i = 0 then 0 else offs ! (i - 1))
           \<and> seg_end offs i = offs ! i
           \<and> seg_end offs i - seg_start offs i = ls ! i
           \<and> seg_start offs i \<le> seg_end offs i"
  proof (intro allI impI)
    fix i assume i: "i < length ls"
    then have "0 \<le> ls ! i" using nonneg by simp
    moreover have "seg_end offs i = seg_start offs i + ls ! i"
      using i by (simp add: offs seg_end_start)
    ultimately show "seg_start offs i = (if i = 0 then 0 else offs ! (i - 1))
           \<and> seg_end offs i = offs ! i
           \<and> seg_end offs i - seg_start offs i = ls ! i
           \<and> seg_start offs i \<le> seg_end offs i"
      by (simp add: seg_start_def seg_end_def)
  qed
  from c1 c2 c3 c4 c5 c6 show ?thesis by blast
qed

theorem offsets_inclusive_prefix_sum_witness:
  "inclusive_scan_wrapper [1, 2] 2 = [1, 3]
   \<and> [1, 3 :: int] ! 1 - [1, 3] ! 0 = [1, 2] ! 1
   \<and> seg_start [1, 3] 1 = 1 \<and> seg_end [1, 3] 1 = 3"
proof -
  have h: "\<forall>x \<in> set [1, 2 :: int]. 0 \<le> x" by simp
  have e: "[1, 3] = inclusive_scan_wrapper [1, 2] (int (length [1, 2 :: int]))"
    by (simp add: inclusive_scan_wrapper_def InclusiveSum_def)
  from offsets_inclusive_prefix_sum [OF h e] e h show ?thesis
    by (simp add: seg_start_def seg_end_def)
qed

subsection \<open>Strided loops and steps on disjoint locations\<close>

lemma set_strided:
  "0 < step \<Longrightarrow> set (strided i b step) = {x. i \<le> x \<and> x < b \<and> (x - i) mod step = 0}"
proof (induction i b step rule: strided.induct)
  case (1 i bound step)
  show ?case
  proof (cases "i < bound")
    case True
    with 1 have IH: "set (strided (i + step) bound step) =
        {x. i + step \<le> x \<and> x < bound \<and> (x - (i + step)) mod step = 0}" by simp
    have "{x. i \<le> x \<and> x < bound \<and> (x - i) mod step = 0} =
          insert i {x. i + step \<le> x \<and> x < bound \<and> (x - (i + step)) mod step = 0}"
      (is "?L = insert i ?R")
    proof (intro set_eqI iffI)
      fix x assume "x \<in> ?L"
      then have x: "i \<le> x" "x < bound" "(x - i) mod step = 0" by auto
      show "x \<in> insert i ?R"
      proof (cases "x = i")
        case False
        with x have "0 < x - i" by simp
        with x(3) \<open>0 < step\<close> have "step \<le> x - i"
          by (metis mod_pos_pos_trivial not_le less_le)
        moreover have "(x - (i + step)) mod step = 0"
          using x(3) by (metis diff_diff_add mod_0_imp_dvd dvd_diff dvd_refl dvd_imp_mod_0)
        ultimately show ?thesis using x by simp
      qed simp
    next
      fix x assume "x \<in> insert i ?R"
      then show "x \<in> ?L"
      proof
        assume "x = i" with True show ?thesis by simp
      next
        assume "x \<in> ?R"
        then have x: "i + step \<le> x" "x < bound" "(x - (i + step)) mod step = 0" by auto
        have "(x - i) mod step = 0"
          using x(3) by (metis add_diff_cancel_left' diff_diff_add mod_0_imp_dvd dvd_add_triv_right_iff dvd_imp_mod_0 diff_add_cancel add.commute)
        with x \<open>0 < step\<close> show ?thesis by simp
      qed
    qed
    with IH True \<open>0 < step\<close> show ?thesis
      by (simp add: strided.simps [of i bound step])
  next
    case False
    then show ?thesis by (auto simp: strided.simps [of i bound step])
  qed
qed

lemma distinct_strided: "distinct (strided i b step)"
proof (induction i b step rule: strided.induct)
  case (1 i bound step)
  show ?case
  proof (cases "i < bound \<and> 0 < step")
    case True
    with 1 have "distinct (strided (i + step) bound step)" by simp
    moreover have "i \<notin> set (strided (i + step) bound step)"
      using True by (simp add: set_strided)
    ultimately show ?thesis using True by (simp add: strided.simps [of i bound step])
  next
    case False
    then show ?thesis by (auto simp: strided.simps [of i bound step])
  qed
qed

lemma distinct_concat_map:
  assumes "distinct ts"
    and "\<And>t. t \<in> set ts \<Longrightarrow> distinct (f t)"
    and "\<And>t u. t \<in> set ts \<Longrightarrow> u \<in> set ts \<Longrightarrow> t \<noteq> u \<Longrightarrow> set (f t) \<inter> set (f u) = {}"
  shows "distinct (concat (map f ts))"
  using assms
proof (induction ts)
  case Nil
  then show ?case by simp
next
  case (Cons t ts)
  have "distinct (concat (map f ts))"
    using Cons.prems by (intro Cons.IH) auto
  moreover have "set (f t) \<inter> set (concat (map f ts)) = {}"
  proof -
    have "\<And>u. u \<in> set ts \<Longrightarrow> set (f t) \<inter> set (f u) = {}"
      using Cons.prems(1) by (intro Cons.prems(3)) auto
    then show ?thesis by auto
  qed
  ultimately show ?case using Cons.prems(2) by simp
qed

text \<open>Steps with pairwise disjoint footprints.\<close>

lemma fold_outside:
  assumes "\<And>x m. x \<in> set xs \<Longrightarrow> step x m l = m l"
  shows "fold step xs m l = m l"
  using assms by (induction xs arbitrary: m) simp_all

lemma fold_inside:
  assumes "distinct xs" and "x \<in> set xs" and "l \<in> fp x"
    and frame: "\<And>y m l. y \<in> set xs \<Longrightarrow> l \<notin> fp y \<Longrightarrow> step y m l = m l"
    and dep: "\<And>y m m' l. y \<in> set xs \<Longrightarrow> l \<in> fp y \<Longrightarrow> (\<forall>l' \<in> fp y. m l' = m' l') \<Longrightarrow> step y m l = step y m' l"
    and disj: "\<And>y z. y \<in> set xs \<Longrightarrow> z \<in> set xs \<Longrightarrow> y \<noteq> z \<Longrightarrow> fp y \<inter> fp z = {}"
  shows "fold step xs m l = step x m l"
  using assms
proof (induction xs arbitrary: m)
  case Nil
  then show ?case by simp
next
  case (Cons y ys)
  show ?case
  proof (cases "x = y")
    case True
    have "fold step ys (step y m) l = step y m l"
    proof (rule fold_outside)
      fix z m' assume z: "z \<in> set ys"
      with Cons.prems(1) have "z \<noteq> y" by auto
      with z Cons.prems(6) [of z y] have "fp z \<inter> fp y = {}" by simp
      with \<open>l \<in> fp x\<close> True have "l \<notin> fp z" by auto
      with z show "step z m' l = m' l" by (simp add: Cons.prems(4))
    qed
    with True show ?thesis by simp
  next
    case False
    with Cons.prems have x: "x \<in> set ys" by simp
    have "fold step ys (step y m) l = step x (step y m) l"
      using Cons.prems x by (intro Cons.IH) auto
    also have "step x (step y m) l = step x m l"
    proof (rule Cons.prems(5))
      show "x \<in> set (y # ys)" "l \<in> fp x" using Cons.prems by auto
      from Cons.prems(6) [of x y] False x have d: "fp x \<inter> fp y = {}" by simp
      show "\<forall>l' \<in> fp x. step y m l' = m l'"
      proof
        fix l' assume "l' \<in> fp x"
        with d have "l' \<notin> fp y" by auto
        then show "step y m l' = m l'" by (simp add: Cons.prems(4))
      qed
    qed
    finally show ?thesis by simp
  qed
qed

lemma fold_disjoint_order:
  assumes "distinct xs" and "distinct ys" and "set xs = set ys"
    and frame: "\<And>y m l. y \<in> set xs \<Longrightarrow> l \<notin> fp y \<Longrightarrow> step y m l = m l"
    and dep: "\<And>y m m' l. y \<in> set xs \<Longrightarrow> l \<in> fp y \<Longrightarrow> (\<forall>l' \<in> fp y. m l' = m' l') \<Longrightarrow> step y m l = step y m' l"
    and disj: "\<And>y z. y \<in> set xs \<Longrightarrow> z \<in> set xs \<Longrightarrow> y \<noteq> z \<Longrightarrow> fp y \<inter> fp z = {}"
  shows "fold step xs m = fold step ys m"
proof
  fix l
  show "fold step xs m l = fold step ys m l"
  proof (cases "\<exists>x \<in> set xs. l \<in> fp x")
    case True
    then obtain x where x: "x \<in> set xs" "l \<in> fp x" by auto
    have "fold step xs m l = step x m l"
      using assms(1) x frame dep disj by (rule fold_inside [where fp = fp]) auto
    moreover have "fold step ys m l = step x m l"
      using assms(2) x frame dep disj assms(3) by (intro fold_inside [where fp = fp]) auto
    ultimately show ?thesis by simp
  next
    case False
    then have "fold step xs m l = m l" "fold step ys m l = m l"
      using frame assms(3) by (auto intro!: fold_outside)
    then show ?thesis by simp
  qed
qed


text \<open>Lanes cover a range once.\<close>

lemma set_lanes:
  assumes "0 < n" and "v \<le> n" and "min (b - a) n \<le> v"
  shows "set (concat (map (\<lambda>t. strided (a + t) b n) [0 .. v - 1])) = {a ..< b}"
proof (intro set_eqI iffI)
  fix x assume "x \<in> set (concat (map (\<lambda>t. strided (a + t) b n) [0 .. v - 1]))"
  then obtain t where "0 \<le> t" "x \<in> set (strided (a + t) b n)" by auto
  with \<open>0 < n\<close> show "x \<in> {a ..< b}" by (simp add: set_strided)
next
  fix x assume "x \<in> {a ..< b}"
  then have x: "a \<le> x" "x < b" by auto
  define t where "t = (x - a) mod n"
  have t: "0 \<le> t" "t < n" "t \<le> x - a"
    using \<open>0 < n\<close> x by (simp_all add: t_def zmod_le_nonneg_dividend)
  with x assms have "t < v" by (auto simp: min_def split: if_splits)
  moreover have "(x - (a + t)) mod n = 0"
    by (simp add: t_def diff_diff_eq [symmetric] minus_mod_eq_mult_div)
  ultimately have "t \<in> set [0 .. v - 1]" "x \<in> set (strided (a + t) b n)"
    using t x \<open>0 < n\<close> by (simp_all add: set_strided)
  then show "x \<in> set (concat (map (\<lambda>t. strided (a + t) b n) [0 .. v - 1]))"
    by auto
qed

lemma strided_disjoint:
  assumes "0 < n" "0 \<le> t" "t < n" "0 \<le> u" "u < n" "t \<noteq> u"
  shows "set (strided (a + t) b n) \<inter> set (strided (a + u) b n) = {}"
proof -
  have False if "x \<in> set (strided (a + t) b n)" "x \<in> set (strided (a + u) b n)" for x
  proof -
    from that \<open>0 < n\<close> have "(x - (a + t)) mod n = 0" "(x - (a + u)) mod n = 0"
      by (simp_all add: set_strided)
    then have "n dvd (x - (a + t))" "n dvd (x - (a + u))" by auto
    then have "n dvd ((x - (a + u)) - (x - (a + t)))" by (rule dvd_diff [rotated])
    then have "n dvd (t - u)" by (simp add: algebra_simps)
    then have "(t - u) mod n = 0" by auto
    then have "t mod n = u mod n" by (metis mod_eq_dvd_iff \<open>n dvd (t - u)\<close>)
    with assms show False by simp
  qed
  then show ?thesis by auto
qed


subsection \<open>The per-element kernel against the reference\<close>

text \<open>
  This section and the ones up to the section on offsets that fit their types are about
  the kernel bodies with unbounded offsets; that section carries their facts over to the
  kernels, member by member.
\<close>

lemma in_row_iff: "in_row D row a \<longleftrightarrow> (\<exists>i. 0 \<le> i \<and> i < D \<and> a = row * D + i)"
proof
  assume "in_row D row a"
  then have "0 \<le> a - row * D \<and> a - row * D < D \<and> a = row * D + (a - row * D)"
    by (simp add: in_row_def)
  then show "\<exists>i. 0 \<le> i \<and> i < D \<and> a = row * D + i" by blast
qed (auto simp: in_row_def)

lemma in_row_div: "in_row D row a \<Longrightarrow> a div D = row"
proof -
  assume "in_row D row a"
  then obtain i where i: "0 \<le> i" "i < D" "a = row * D + i" by (auto simp: in_row_iff)
  then have "D \<noteq> 0" by auto
  with i show ?thesis by (simp add: div_pos_pos_trivial)
qed

lemma in_row_unique: "in_row D r a \<Longrightarrow> in_row D r' a \<Longrightarrow> r = r'"
  by (auto dest!: in_row_div)

lemma ideal_adagrad_cell_frame:
  "l \<notin> cell_locs k (g, line, i) \<Longrightarrow> ideal_adagrad_cell k g line i m l = m l"
  by (simp add: ideal_adagrad_cell_def cell_locs_def Let_def)

lemma ideal_adagrad_cell_dep:
  "\<forall>l \<in> cell_locs k (g, line, i). m l = m' l \<Longrightarrow> l \<in> cell_locs k (g, line, i) \<Longrightarrow>
   ideal_adagrad_cell k g line i m l = ideal_adagrad_cell k g line i m' l"
  by (auto simp: ideal_adagrad_cell_def cell_locs_def Let_def)

lemma ideal_adagrad_cell_Mom:
  "ideal_adagrad_cell k g line i m (Mom (indices k line * post k + i)) =
   m (Mom (indices k line * post k + i)) + (effective_grad k g (indices k line) i m)\<^sup>2"
  by (simp add: ideal_adagrad_cell_def effective_grad_def Let_def power2_eq_square)

lemma ideal_adagrad_cell_Param:
  "ideal_adagrad_cell k g line i m (Param (indices k line * post k + i)) =
   m (Param (indices k line * post k + i)) +
   lr k 0 * effective_grad k g (indices k line) i m /
     (sqrt (m (Mom (indices k line * post k + i)) + (effective_grad k g (indices k line) i m)\<^sup>2)
      + epsilon k)"
  by (simp add: ideal_adagrad_cell_def effective_grad_def Let_def power2_eq_square add.commute)

lemma row_cells_disjoint:
  "i \<noteq> j \<Longrightarrow> cell_locs k (g, line, i) \<inter> cell_locs k (g, line, j) = {}"
  by (simp add: cell_locs_def)

lemma ref_exact_member_fold:
  "ref_exact_member k (g, line) m =
   fold (ideal_sum_cell_step k) (map (\<lambda>i. (g, line, i)) [0 .. post k - 1]) m"
proof
  fix l
  let ?xs = "map (\<lambda>i. (g, line, i)) [0 .. post k - 1]"
  let ?row = "indices k line"
  have dist: "distinct ?xs" by (simp add: distinct_map inj_on_def)
  have inside: "fold (ideal_sum_cell_step k) ?xs m l = ideal_sum_cell_step k x m l"
    if "x \<in> set ?xs" "l \<in> cell_locs k x" for x
    using dist that
  proof (rule fold_inside [where fp = "cell_locs k"])
    show "ideal_sum_cell_step k y m l = m l" if "l \<notin> cell_locs k y" for y m l
      using that by (cases y) (simp add: ideal_sum_cell_step_def ideal_adagrad_cell_frame)
    show "ideal_sum_cell_step k y m l = ideal_sum_cell_step k y m' l"
      if "l \<in> cell_locs k y" "\<forall>l' \<in> cell_locs k y. m l' = m' l'" for y m m' l
      using that by (cases y) (simp add: ideal_sum_cell_step_def ideal_adagrad_cell_dep)
    show "cell_locs k y \<inter> cell_locs k z = {}" if "y \<in> set ?xs" "z \<in> set ?xs" "y \<noteq> z" for y z
      using that by (auto simp: cell_locs_def)
  qed
  have outside: "fold (ideal_sum_cell_step k) ?xs m l = m l"
    if "\<And>x. x \<in> set ?xs \<Longrightarrow> l \<notin> cell_locs k x"
  proof (rule fold_outside)
    fix x m' assume "x \<in> set ?xs"
    with that show "ideal_sum_cell_step k x m' l = m' l"
      by (cases x) (simp add: ideal_sum_cell_step_def ideal_adagrad_cell_frame)
  qed
  show "ref_exact_member k (g, line) m l = fold (ideal_sum_cell_step k) ?xs m l"
  proof (cases l)
    case (Param a)
    show ?thesis
    proof (cases "in_row (post k) ?row a")
      case True
      then obtain i where i: "0 \<le> i" "i < post k" "a = ?row * post k + i"
        by (auto simp: in_row_iff)
      then have "(g, line, i) \<in> set ?xs" "l \<in> cell_locs k (g, line, i)"
        using Param by (auto simp: cell_locs_def)
      from inside [OF this] i Param True show ?thesis
        by (simp add: ref_exact_member_def ideal_sum_cell_step_def ideal_adagrad_cell_Param Let_def)
    next
      case False
      then have "\<And>x. x \<in> set ?xs \<Longrightarrow> l \<notin> cell_locs k x"
        using Param by (auto simp: cell_locs_def in_row_iff)
      from outside [OF this] False Param show ?thesis
        by (simp add: ref_exact_member_def)
    qed
  next
    case (Mom a)
    show ?thesis
    proof (cases "in_row (post k) ?row a")
      case True
      then obtain i where i: "0 \<le> i" "i < post k" "a = ?row * post k + i"
        by (auto simp: in_row_iff)
      then have "(g, line, i) \<in> set ?xs" "l \<in> cell_locs k (g, line, i)"
        using Mom by (auto simp: cell_locs_def)
      from inside [OF this] i Mom True show ?thesis
        by (simp add: ref_exact_member_def ideal_sum_cell_step_def ideal_adagrad_cell_Mom Let_def)
    next
      case False
      then have "\<And>x. x \<in> set ?xs \<Longrightarrow> l \<notin> cell_locs k x"
        using Mom by (auto simp: cell_locs_def in_row_iff)
      from outside [OF this] False Mom show ?thesis
        by (simp add: ref_exact_member_def)
    qed
  next
    case (WGrad j)
    then have "\<And>x. x \<in> set ?xs \<Longrightarrow> l \<notin> cell_locs k x"
      by (auto simp: cell_locs_def)
    from outside [OF this] WGrad show ?thesis
      by (simp add: ref_exact_member_def)
  qed
qed

subsection \<open>Segments of well-formed lengths\<close>

lemma seg_bounds:
  assumes "\<forall>x \<in> set ls. (0::int) \<le> x" and "g < length ls"
  shows "0 \<le> seg_start (inclusive_scan_wrapper ls (int (length ls))) g"
    and "seg_start (inclusive_scan_wrapper ls (int (length ls))) g
         \<le> seg_end (inclusive_scan_wrapper ls (int (length ls))) g"
    and "seg_end (inclusive_scan_wrapper ls (int (length ls))) g \<le> sum_list ls"
proof -
  from assms show "0 \<le> seg_start (inclusive_scan_wrapper ls (int (length ls))) g"
    using sum_list_take_mono [of ls 0 g] by (simp add: seg_start_scan)
  from assms show "seg_start (inclusive_scan_wrapper ls (int (length ls))) g
         \<le> seg_end (inclusive_scan_wrapper ls (int (length ls))) g"
    by (simp add: seg_start_scan seg_end_scan sum_list_take_mono)
  from assms show "seg_end (inclusive_scan_wrapper ls (int (length ls))) g \<le> sum_list ls"
    using sum_list_take_mono [of ls "Suc g" "length ls"] by (simp add: seg_end_scan)
qed

lemma segments_disjoint:
  assumes nonneg: "\<forall>x \<in> set ls. (0::int) \<le> x"
    and g: "g < length ls" "g' < length ls"
    and "offs = inclusive_scan_wrapper ls (int (length ls))"
    and l: "seg_start offs g \<le> line" "line < seg_end offs g"
    and l': "seg_start offs g' \<le> line" "line < seg_end offs g'"
  shows "g = g'"
proof -
  have *: False if "a < b" "b < length ls" "line < seg_end offs a" "seg_start offs b \<le> line" for a b
  proof -
    from that have "seg_end offs a \<le> seg_start offs b"
      using nonneg assms(4) by (simp add: seg_start_scan seg_end_scan sum_list_take_mono)
    with that show False by simp
  qed
  show ?thesis
  proof (rule ccontr)
    assume "g \<noteq> g'"
    then consider "g < g'" | "g' < g" by linarith
    then show False using * g l l' by cases blast+
  qed
qed

lemma set_kernel_members:
  "set (kernel_members k) =
   {(g, line). g < nat (len_length k) \<and> seg_start (prefix_sum_length_data k) g \<le> line
      \<and> line < seg_end (prefix_sum_length_data k) g}"
  by (auto simp: kernel_members_def block_members_def)

lemma distinct_kernel_members: "distinct (kernel_members k)"
  unfolding kernel_members_def
  by (rule distinct_concat_map) (auto simp: block_members_def distinct_map inj_on_def)



subsection \<open>The cells of the per-element kernel\<close>

lemma set_block_threads:
  "set (block_threads (bx, by)) = {(tx, ty). 0 \<le> tx \<and> tx < bx \<and> 0 \<le> ty \<and> ty < by}"
  by (auto simp: block_threads_def)

lemma distinct_block_threads: "distinct (block_threads bd)"
  unfolding block_threads_def
  by (rule distinct_concat_map) (auto simp: distinct_map inj_on_def)

lemma in_lanes_iff:
  assumes "0 < n"
  shows "(\<exists>t. 0 \<le> t \<and> t < n \<and> x \<in> set (strided (a + t) b n)) \<longleftrightarrow> a \<le> x \<and> x < b"
proof -
  have "set (concat (map (\<lambda>t. strided (a + t) b n) [0 .. n - 1])) = {a ..< b}"
    using assms by (intro set_lanes) auto
  then have "x \<in> set (concat (map (\<lambda>t. strided (a + t) b n) [0 .. n - 1])) \<longleftrightarrow> x \<in> {a ..< b}"
    by simp
  then show ?thesis by (simp del: set_concat add: set_concat) force
qed

lemma in_lanes0_iff:
  assumes "0 < n"
  shows "(\<exists>t. 0 \<le> t \<and> t < n \<and> x \<in> set (strided t b n)) \<longleftrightarrow> 0 \<le> x \<and> x < b"
  using in_lanes_iff [OF assms, of x 0 b] by simp

lemma strided0_disjoint:
  assumes "0 < n" "0 \<le> t" "t < n" "0 \<le> u" "u < n" "t \<noteq> u"
  shows "set (strided t b n) \<inter> set (strided u b n) = {}"
  using strided_disjoint [OF assms, of 0 b] by simp

lemma in_sum_thread_cells_exact:
  "(g', line, i) \<in> set (sum_thread_cells True k (bx, by) g (tx, ty)) \<longleftrightarrow>
   g' = g \<and> i = tx \<and> line \<in> set (strided (seg_start (prefix_sum_length_data k) g + ty)
      (seg_end (prefix_sum_length_data k) g) by)"
  by (auto simp: sum_thread_cells_def)

lemma in_sum_thread_cells_strided:
  "(g', line, i) \<in> set (sum_thread_cells False k (bx, by) g (tx, ty)) \<longleftrightarrow>
   g' = g \<and> i \<in> set (strided tx (post k) bx) \<and> seg_start (prefix_sum_length_data k) g \<le> line
     \<and> line < seg_end (prefix_sum_length_data k) g"
  by (force simp: sum_thread_cells_def)

lemma in_sum_kernel_cells:
  "(g, line, i) \<in> set (sum_kernel_cells E k bd) \<longleftrightarrow>
   g < nat (len_length k) \<and>
   (\<exists>tx ty. (tx, ty) \<in> set (block_threads bd) \<and> (g, line, i) \<in> set (sum_thread_cells E k bd g (tx, ty)))"
proof
  assume "(g, line, i) \<in> set (sum_kernel_cells E k bd)"
  then obtain g' t where g': "g' < nat (len_length k)" "t \<in> set (block_threads bd)"
      "(g, line, i) \<in> set (sum_thread_cells E k bd g' t)"
    by (auto simp: sum_kernel_cells_def)
  then have "g' = g" by (cases E) (auto simp: sum_thread_cells_def)
  with g' show "g < nat (len_length k) \<and>
   (\<exists>tx ty. (tx, ty) \<in> set (block_threads bd) \<and> (g, line, i) \<in> set (sum_thread_cells E k bd g (tx, ty)))"
    by (cases t) auto
next
  assume "g < nat (len_length k) \<and>
   (\<exists>tx ty. (tx, ty) \<in> set (block_threads bd) \<and> (g, line, i) \<in> set (sum_thread_cells E k bd g (tx, ty)))"
  then show "(g, line, i) \<in> set (sum_kernel_cells E k bd)"
    unfolding sum_kernel_cells_def set_concat set_map by fastforce
qed

lemma set_sum_kernel_cells_exact:
  assumes "0 < by"
  shows "set (sum_kernel_cells True k (post k, by)) =
         {(g, line, i). (g, line) \<in> set (kernel_members k) \<and> 0 \<le> i \<and> i < post k}"
proof -
  have "c \<in> set (sum_kernel_cells True k (post k, by)) \<longleftrightarrow>
        c \<in> {(g, line, i). (g, line) \<in> set (kernel_members k) \<and> 0 \<le> i \<and> i < post k}" for c
  proof (cases c)
    case (fields g line i)
    let ?s = "seg_start (prefix_sum_length_data k) g" and ?e = "seg_end (prefix_sum_length_data k) g"
    have "c \<in> set (sum_kernel_cells True k (post k, by)) \<longleftrightarrow>
          g < nat (len_length k) \<and> (0 \<le> i \<and> i < post k) \<and>
          (\<exists>ty. 0 \<le> ty \<and> ty < by \<and> line \<in> set (strided (?s + ty) ?e by))"
      unfolding fields
      by (auto simp: in_sum_kernel_cells in_sum_thread_cells_exact set_block_threads)
    also have "\<dots> \<longleftrightarrow> g < nat (len_length k) \<and> (0 \<le> i \<and> i < post k) \<and> ?s \<le> line \<and> line < ?e"
      by (simp only: in_lanes_iff [OF assms])
    finally show ?thesis by (auto simp: fields set_kernel_members)
  qed
  then show ?thesis by blast
qed

lemma set_sum_kernel_cells_strided:
  assumes "0 < bx"
  shows "set (sum_kernel_cells False k (bx, 1)) =
         {(g, line, i). (g, line) \<in> set (kernel_members k) \<and> 0 \<le> i \<and> i < post k}"
proof -
  have "c \<in> set (sum_kernel_cells False k (bx, 1)) \<longleftrightarrow>
        c \<in> {(g, line, i). (g, line) \<in> set (kernel_members k) \<and> 0 \<le> i \<and> i < post k}" for c
  proof (cases c)
    case (fields g line i)
    let ?s = "seg_start (prefix_sum_length_data k) g" and ?e = "seg_end (prefix_sum_length_data k) g"
    have "c \<in> set (sum_kernel_cells False k (bx, 1)) \<longleftrightarrow>
          g < nat (len_length k) \<and> (?s \<le> line \<and> line < ?e) \<and>
          (\<exists>tx. 0 \<le> tx \<and> tx < bx \<and> i \<in> set (strided tx (post k) bx))"
      unfolding fields
      by (simp add: in_sum_kernel_cells in_sum_thread_cells_strided set_block_threads) force
    also have "\<dots> \<longleftrightarrow> g < nat (len_length k) \<and> (?s \<le> line \<and> line < ?e) \<and> 0 \<le> i \<and> i < post k"
      by (simp only: in_lanes0_iff [OF assms])
    finally show ?thesis by (auto simp: fields set_kernel_members)
  qed
  then show ?thesis by blast
qed

lemma distinct_sum_kernel_cells_exact:
  assumes "0 < by"
  shows "distinct (sum_kernel_cells True k (bx, by))"
  unfolding sum_kernel_cells_def
proof (rule distinct_concat_map)
  show "distinct [0 ..< nat (len_length k)]" by simp
  show "distinct (concat (map (sum_thread_cells True k (bx, by) g) (block_threads (bx, by))))" for g
  proof (rule distinct_concat_map)
    show "distinct (block_threads (bx, by))" by (rule distinct_block_threads)
    show "distinct (sum_thread_cells True k (bx, by) g t)" for t
      by (simp add: sum_thread_cells_def distinct_map distinct_strided inj_on_def)
    show "set (sum_thread_cells True k (bx, by) g t) \<inter> set (sum_thread_cells True k (bx, by) g u) = {}"
      if "t \<in> set (block_threads (bx, by))" "u \<in> set (block_threads (bx, by))" "t \<noteq> u" for t u
    proof (cases "fst t = fst u")
      case True
      with that have "snd t \<noteq> snd u" by (auto simp: prod_eq_iff)
      with that assms have "set (strided (seg_start (prefix_sum_length_data k) g + snd t)
          (seg_end (prefix_sum_length_data k) g) by) \<inter>
         set (strided (seg_start (prefix_sum_length_data k) g + snd u)
          (seg_end (prefix_sum_length_data k) g) by) = {}"
        by (intro strided_disjoint) (auto simp: set_block_threads)
      then show ?thesis by (auto simp: sum_thread_cells_def)
    next
      case False
      then show ?thesis by (auto simp: sum_thread_cells_def)
    qed
  qed
  show "set (concat (map (sum_thread_cells True k (bx, by) g) (block_threads (bx, by)))) \<inter>
        set (concat (map (sum_thread_cells True k (bx, by) g') (block_threads (bx, by)))) = {}"
    if "g \<noteq> g'" for g g'
    using that by (auto simp: sum_thread_cells_def)
qed

lemma distinct_sum_kernel_cells_strided:
  assumes "0 < bx"
  shows "distinct (sum_kernel_cells False k (bx, 1))"
  unfolding sum_kernel_cells_def
proof (rule distinct_concat_map)
  show "distinct [0 ..< nat (len_length k)]" by simp
  show "distinct (concat (map (sum_thread_cells False k (bx, 1) g) (block_threads (bx, 1))))" for g
  proof (rule distinct_concat_map)
    show "distinct (block_threads (bx, 1))" by (rule distinct_block_threads)
    show "distinct (sum_thread_cells False k (bx, 1) g t)" for t
      unfolding sum_thread_cells_def Let_def if_False
      by (rule distinct_concat_map) (auto simp: distinct_strided distinct_map inj_on_def)
    show "set (sum_thread_cells False k (bx, 1) g t) \<inter> set (sum_thread_cells False k (bx, 1) g u) = {}"
      if "t \<in> set (block_threads (bx, 1))" "u \<in> set (block_threads (bx, 1))" "t \<noteq> u" for t u
    proof -
      from that have "fst t \<noteq> fst u" "0 \<le> fst t" "fst t < bx" "0 \<le> fst u" "fst u < bx"
        by (auto simp: set_block_threads prod_eq_iff)
      with assms have "set (strided (fst t) (post k) bx) \<inter> set (strided (fst u) (post k) bx) = {}"
        by (intro strided0_disjoint) auto
      then show ?thesis by (auto simp: sum_thread_cells_def)
    qed
  qed
  show "set (concat (map (sum_thread_cells False k (bx, 1) g) (block_threads (bx, 1)))) \<inter>
        set (concat (map (sum_thread_cells False k (bx, 1) g') (block_threads (bx, 1)))) = {}"
    if "g \<noteq> g'" for g g'
    using that by (auto simp: sum_thread_cells_def)
qed

subsection \<open>Members of a well-formed batch\<close>

lemma member_range:
  assumes "segments_of k ls" and "(g, line) \<in> set (kernel_members k)"
  shows "g < length ls" and "0 \<le> line" and "line < sum_list ls"
proof -
  from assms have nonneg: "\<forall>x \<in> set ls. 0 \<le> x"
    and len: "len_length k = int (length ls)"
    and offs: "prefix_sum_length_data k = inclusive_scan_wrapper ls (int (length ls))"
    by (simp_all add: segments_of_def list_all_iff)
  from assms(2) len show g: "g < length ls" by (simp add: set_kernel_members)
  from assms(2) have l: "seg_start (prefix_sum_length_data k) g \<le> line"
      "line < seg_end (prefix_sum_length_data k) g"
    by (simp_all add: set_kernel_members)
  from seg_bounds(1) [OF nonneg g] l show "0 \<le> line" by (simp add: offs)
  from seg_bounds(3) [OF nonneg g] l show "line < sum_list ls" by (simp add: offs)
qed

lemma member_segment_unique:
  assumes "segments_of k ls"
    and "(g, line) \<in> set (kernel_members k)" and "(g', line) \<in> set (kernel_members k)"
  shows "g = g'"
proof -
  from assms(1) have nonneg: "\<forall>x \<in> set ls. 0 \<le> x"
    and len: "len_length k = int (length ls)"
    and offs: "prefix_sum_length_data k = inclusive_scan_wrapper ls (int (length ls))"
    by (simp_all add: segments_of_def list_all_iff)
  from assms(2,3) len show ?thesis
    by (rule_tac segments_disjoint [OF nonneg _ _ offs, of g g' line])
       (simp_all add: set_kernel_members)
qed

lemma unique_indices_inj:
  assumes "unique_indices k ls" and "0 \<le> a" "a < sum_list ls" "0 \<le> b" "b < sum_list ls"
    and "indices k a = indices k b"
  shows "a = b"
proof -
  from assms(1) have "inj_on (indices k) (set [0 .. sum_list ls - 1])"
    by (simp add: unique_indices_def distinct_map)
  with assms(2-) show ?thesis by (auto simp: inj_on_def)
qed

lemma member_rows_differ:
  assumes "segments_of k ls" and "unique_indices k ls"
    and "(g, line) \<in> set (kernel_members k)" and "(g', line') \<in> set (kernel_members k)"
    and "indices k line = indices k line'"
  shows "g = g' \<and> line = line'"
proof -
  have "line = line'"
    using assms member_range [OF assms(1,3)] member_range [OF assms(1,4)]
    by (rule_tac unique_indices_inj [of k ls]) auto
  with member_segment_unique [OF assms(1), of g line g'] assms show ?thesis by simp
qed

subsection \<open>The per-element kernel is the reference when the indices are unique\<close>

lemma fold_over_concat: "fold f (concat xss) m = fold (\<lambda>xs. fold f xs) xss m"
  by (induction xss arbitrary: m) simp_all

lemma reference_exact_cells:
  "reference (ref_exact_member k) order m =
   fold (ideal_sum_cell_step k)
     (concat (map (\<lambda>c. map (\<lambda>i. (fst c, snd c, i)) [0 .. post k - 1]) order)) m"
proof -
  have "ref_exact_member k = (\<lambda>c. fold (ideal_sum_cell_step k) (map (\<lambda>i. (fst c, snd c, i)) [0 .. post k - 1]))"
    by (rule ext, rule ext) (simp add: ref_exact_member_fold [symmetric])
  then show ?thesis
    by (simp add: reference_def fold_over_concat fold_map comp_def)
qed

lemma cells_disjoint:
  assumes "segments_of k ls" and "unique_indices k ls"
    and y: "(g, line) \<in> set (kernel_members k)" "0 \<le> i" "i < post k"
    and z: "(g', line') \<in> set (kernel_members k)" "0 \<le> i'" "i' < post k"
    and ne: "(g, line, i) \<noteq> (g', line', i')"
  shows "cell_locs k (g, line, i) \<inter> cell_locs k (g', line', i') = {}"
proof (rule ccontr)
  assume "cell_locs k (g, line, i) \<inter> cell_locs k (g', line', i') \<noteq> {}"
  then have eq: "indices k line * post k + i = indices k line' * post k + i'"
    by (auto simp: cell_locs_def)
  have "in_row (post k) (indices k line) (indices k line * post k + i)"
       "in_row (post k) (indices k line') (indices k line' * post k + i')"
    using y z by (simp_all add: in_row_def)
  with eq have r: "indices k line = indices k line'" by (auto dest: in_row_unique)
  with eq have "i = i'" by simp
  moreover from member_rows_differ [OF assms(1,2) y(1) z(1) r] have "g = g'" "line = line'" by auto
  ultimately show False using ne by simp
qed

lemma exact_cells_any_order:
  assumes wf: "segments_of k ls" and uniq: "unique_indices k ls"
    and sched: "distinct sched"
      "set sched = {(g, line, i). (g, line) \<in> set (kernel_members k) \<and> 0 \<le> i \<and> i < post k}"
    and order: "distinct order" "set order = set (kernel_members k)"
  shows "fold (ideal_sum_cell_step k) sched m = reference (ref_exact_member k) order m"
proof -
  let ?ys = "concat (map (\<lambda>c. map (\<lambda>i. (fst c, snd c, i)) [0 .. post k - 1]) order)"
  have dys: "distinct ?ys"
  proof (rule distinct_concat_map)
    show "distinct order" by (rule order(1))
    show "distinct (map (\<lambda>i. (fst c, snd c, i)) [0 .. post k - 1])" for c
      by (simp add: distinct_map inj_on_def)
    show "set (map (\<lambda>i. (fst c, snd c, i)) [0 .. post k - 1]) \<inter>
          set (map (\<lambda>i. (fst c', snd c', i)) [0 .. post k - 1]) = {}" if "c \<noteq> c'" for c c'
      using that by (auto simp: prod_eq_iff)
  qed
  have "c \<in> set sched \<longleftrightarrow> c \<in> set ?ys" for c
  proof (cases c)
    case (fields g line i)
    have "(g, line, i) \<in> set ?ys \<longleftrightarrow> (g, line) \<in> set order \<and> 0 \<le> i \<and> i < post k"
    proof
      assume "(g, line, i) \<in> set ?ys"
      then obtain c where "c \<in> set order" "g = fst c" "line = snd c" "0 \<le> i" "i < post k"
        by auto
      then show "(g, line) \<in> set order \<and> 0 \<le> i \<and> i < post k" by simp
    next
      assume "(g, line) \<in> set order \<and> 0 \<le> i \<and> i < post k"
      then show "(g, line, i) \<in> set ?ys"
        by (auto intro!: bexI [of _ "(g, line)"])
    qed
    then show ?thesis by (simp add: fields sched(2) order(2))
  qed
  then have sys: "set sched = set ?ys" by blast
  have "fold (ideal_sum_cell_step k) sched m = fold (ideal_sum_cell_step k) ?ys m"
    using sched(1) dys sys
  proof (rule fold_disjoint_order [where fp = "cell_locs k"])
    show "ideal_sum_cell_step k y m l = m l" if "l \<notin> cell_locs k y" for y m l
      using that by (cases y) (simp add: ideal_sum_cell_step_def ideal_adagrad_cell_frame)
    show "ideal_sum_cell_step k y m l = ideal_sum_cell_step k y m' l"
      if "l \<in> cell_locs k y" "\<forall>l' \<in> cell_locs k y. m l' = m' l'" for y m m' l
      using that by (cases y) (simp add: ideal_sum_cell_step_def ideal_adagrad_cell_dep)
    show "cell_locs k y \<inter> cell_locs k z = {}" if "y \<in> set sched" "z \<in> set sched" "y \<noteq> z" for y z
    proof (cases y, cases z)
      fix g line i g' line' i'
      assume yz: "y = (g, line, i)" "z = (g', line', i')"
      from that sched(2) have "(g, line) \<in> set (kernel_members k)" "0 \<le> i" "i < post k"
          "(g', line') \<in> set (kernel_members k)" "0 \<le> i'" "i' < post k"
          "(g, line, i) \<noteq> (g', line', i')"
        unfolding yz by simp_all
      then show ?thesis unfolding yz by (rule cells_disjoint [OF wf uniq])
    qed
  qed
  then show ?thesis by (simp add: reference_exact_cells)
qed

subsection \<open>Lanes with an accumulator\<close>







subsection \<open>One member of the weighted per-element kernel\<close>








subsection \<open>One member of the row-wise kernels\<close>




lemma row_energy_dep:
  "(\<And>a. m (Param a) = m' (Param a)) \<Longrightarrow> row_energy k g index m = row_energy k g index m'"
  by (simp add: row_energy_def effective_grad_def)

lemma weight_grad_dep:
  "(\<And>a. m (Param a) = m' (Param a)) \<Longrightarrow> weight_grad k g index m = weight_grad k g index m'"
  by (simp add: weight_grad_def)


subsection \<open>One member of the row-wise kernel, warp by warp\<close>





subsection \<open>Members of different rows commute\<close>

lemma row_offset: "in_row D row a \<Longrightarrow> row * D + (a - row * D) = a"
  by simp














lemma rows_disjoint:
  "r \<noteq> r' \<Longrightarrow> in_row D r a \<Longrightarrow> \<not> in_row D r' a"
  by (auto dest: in_row_unique)



subsection \<open>Offsets that fit their types\<close>

lemma int32_id: "- (2 ^ 31) \<le> x \<Longrightarrow> x < 2 ^ 31 \<Longrightarrow> int32 x = x"
  by (simp add: int32_def)

lemma uint32_id: "0 \<le> x \<Longrightarrow> x < 2 ^ 32 \<Longrightarrow> uint32 x = x"
  by (simp add: uint32_def)

lemma int64_id: "- (2 ^ 63) \<le> x \<Longrightarrow> x < 2 ^ 63 \<Longrightarrow> int64 x = x"
  by (simp add: int64_def)

lemma size_t_id: "0 \<le> x \<Longrightarrow> x < 2 ^ 64 \<Longrightarrow> size_t x = x"
  by (simp add: size_t_def)

lemma SIndex_int_id: "0 \<le> x \<Longrightarrow> x < SIndex_limit T \<Longrightarrow> SIndex_int T x = x"
  by (cases T) (simp_all add: SIndex_int_def SIndex_limit_def int32_id int64_id)

lemma SIndex_unsigned_id: "0 \<le> x \<Longrightarrow> x < SIndex_limit T \<Longrightarrow> SIndex_unsigned T x = x"
  by (cases T) (simp_all add: SIndex_unsigned_def SIndex_limit_def uint32_id int64_id)

lemma SIndex_limit_le: "SIndex_limit T \<le> 2 ^ 63"
  by (cases T) (simp_all add: SIndex_limit_def)

lemma row_offset_bounds:
  fixes r D i :: int
  assumes "0 \<le> r" "(r + 1) * D \<le> L" "0 \<le> i" "i < D"
  shows "0 \<le> r * D" "r * D < L" "0 \<le> r * D + i" "r * D + i < L"
proof -
  from assms have D: "0 < D" by simp
  with assms(1) show "0 \<le> r * D" by simp
  then show "0 \<le> r * D + i" using assms(3) by simp
  from assms(2) have "r * D + D \<le> L" by (simp add: algebra_simps)
  with D assms(4) show "r * D < L" "r * D + i < L" by simp_all
qed

lemma member_offsets:
  assumes fits: "member_fits k (g, line)" and i: "0 \<le> i" "i < post k"
  shows "group_post_int k g i = int g * post k + i"
    and "group_post_unsigned k g i = int g * post k + i"
    and "index_post_int k (indices k line) i = indices k line * post k + i"
    and "index_post_unsigned k (indices k line) i = indices k line * post k + i"
    and "size_t (int g * post k + i) = int g * post k + i"
    and "size_t (indices k line * post k + i) = indices k line * post k + i"
proof -
  from fits have r: "0 \<le> indices k line" "(indices k line + 1) * post k \<le> SIndex_limit (SIndex k)"
    and g: "(int g + 1) * post k \<le> 2 ^ 31"
    by (simp_all add: member_fits_def)
  have g0: "0 \<le> int g" by simp
  note gb = row_offset_bounds [OF g0 g i]
  note rb = row_offset_bounds [OF r i]
  show "group_post_int k g i = int g * post k + i"
    using gb by (simp add: group_post_int_def int32_id)
  show "group_post_unsigned k g i = int g * post k + i"
    using gb by (simp add: group_post_unsigned_def int32_id uint32_id)
  show "index_post_int k (indices k line) i = indices k line * post k + i"
    using rb by (simp add: index_post_int_def SIndex_int_id)
  show "index_post_unsigned k (indices k line) i = indices k line * post k + i"
    using rb by (simp add: index_post_unsigned_def SIndex_int_id SIndex_unsigned_id)
  show "size_t (int g * post k + i) = int g * post k + i"
    using gb by (simp add: size_t_id)
  show "size_t (indices k line * post k + i) = indices k line * post k + i"
    using rb SIndex_limit_le [of "SIndex k"] by (simp add: size_t_id)
qed



lemma adagrad_cell_ideal:
  assumes "member_fits k (g, line)" "0 \<le> i" "i < post k"
  shows "adagrad_cell ExactBlock k g line i m = ideal_adagrad_cell k g line i m"
  by (simp add: adagrad_cell_def ideal_adagrad_cell_def member_offsets [OF assms])









lemma batch_fitsD: "batch_fits k \<Longrightarrow> c \<in> set (kernel_members k) \<Longrightarrow> member_fits k c"
  by (simp add: batch_fits_def list_all_iff)


lemma fold_cells_ideal:
  assumes fits: "batch_fits k"
    and sub: "set sched \<subseteq> {(g, line, i). (g, line) \<in> set (kernel_members k) \<and> 0 \<le> i \<and> i < post k}"
  shows "fold (sum_cell_step ExactBlock k) sched m = fold (ideal_sum_cell_step k) sched m"
proof (rule fold_cong [OF refl refl])
  fix c assume c: "c \<in> set sched"
  obtain g line i where f: "c = (g, line, i)" by (cases c)
  with c sub have "(g, line) \<in> set (kernel_members k)" "0 \<le> i" "i < post k" by auto
  with fits have "member_fits k (g, line)" "0 \<le> i" "i < post k" by (auto dest: batch_fitsD)
  then show "sum_cell_step ExactBlock k c = ideal_sum_cell_step k c"
    by (simp add: f sum_cell_step_def ideal_sum_cell_step_def adagrad_cell_ideal fun_eq_iff)
qed

subsection \<open>The unbounded kernel bodies against the reference\<close>

lemma schedule_ofD:
  assumes "schedule_of work sched" and "distinct work"
  shows "distinct sched" and "set sched = set work"
  using assms by (auto simp: schedule_of_def dest: mset_eq_setD mset_eq_imp_distinct_iff)






lemma sum_exact_any_order:
  assumes "segments_of k ls" and "unique_indices k ls" and "0 < by"
    and "schedule_of (sum_kernel_cells True k (post k, by)) sched"
    and "schedule_of (kernel_members k) order"
  shows "fold (ideal_sum_cell_step k) sched m = reference (ref_exact_member k) order m"
  using assms(1,2)
proof (rule exact_cells_any_order)
  show "distinct sched"
    using schedule_ofD(1) [OF assms(4) distinct_sum_kernel_cells_exact [OF assms(3)]] .
  show "set sched = {(g, line, i). (g, line) \<in> set (kernel_members k) \<and> 0 \<le> i \<and> i < post k}"
    using schedule_ofD(2) [OF assms(4) distinct_sum_kernel_cells_exact [OF assms(3)]]
    by (simp add: set_sum_kernel_cells_exact [OF assms(3)])
  show "distinct order" "set order = set (kernel_members k)"
    using schedule_ofD [OF assms(5) distinct_kernel_members] by simp_all
qed

lemma sum_strided_any_order:
  assumes "segments_of k ls" and "unique_indices k ls" and "0 < bx"
    and "schedule_of (sum_kernel_cells False k (bx, 1)) sched"
    and "schedule_of (kernel_members k) order"
  shows "fold (ideal_sum_cell_step k) sched m = reference (ref_exact_member k) order m"
  using assms(1,2)
proof (rule exact_cells_any_order)
  show "distinct sched"
    using schedule_ofD(1) [OF assms(4) distinct_sum_kernel_cells_strided [OF assms(3)]] .
  show "set sched = {(g, line, i). (g, line) \<in> set (kernel_members k) \<and> 0 \<le> i \<and> i < post k}"
    using schedule_ofD(2) [OF assms(4) distinct_sum_kernel_cells_strided [OF assms(3)]]
    by (simp add: set_sum_kernel_cells_strided [OF assms(3)])
  show "distinct order" "set order = set (kernel_members k)"
    using schedule_ofD [OF assms(5) distinct_kernel_members] by simp_all
qed

subsection \<open>Kernels against the reference\<close>

lemma sum_exact_fits_any_order:
  assumes "segments_of k ls" and "unique_indices k ls" and "0 < by"
    and "schedule_of (sum_kernel_cells True k (post k, by)) sched"
    and "schedule_of (kernel_members k) order"
    and fits: "batch_fits k"
  shows "fold (sum_cell_step True k) sched m = reference (ref_exact_member k) order m"
proof -
  have "set sched = {(g, line, i). (g, line) \<in> set (kernel_members k) \<and> 0 \<le> i \<and> i < post k}"
    using schedule_ofD(2) [OF assms(4) distinct_sum_kernel_cells_exact [OF assms(3)]]
    by (simp add: set_sum_kernel_cells_exact [OF assms(3)])
  then have "fold (sum_cell_step True k) sched m = fold (ideal_sum_cell_step k) sched m"
    by (intro fold_cells_ideal [OF fits]) simp
  also have "\<dots> = reference (ref_exact_member k) order m"
    using assms(1-5) by (rule sum_exact_any_order)
  finally show ?thesis .
qed

lemma sum_strided_fits_any_order:
  assumes "segments_of k ls" and "unique_indices k ls" and "0 < bx"
    and "schedule_of (sum_kernel_cells False k (bx, 1)) sched"
    and "schedule_of (kernel_members k) order"
    and fits: "batch_fits k"
  shows "fold (sum_cell_step False k) sched m = reference (ref_exact_member k) order m"
proof -
  have "set sched = {(g, line, i). (g, line) \<in> set (kernel_members k) \<and> 0 \<le> i \<and> i < post k}"
    using schedule_ofD(2) [OF assms(4) distinct_sum_kernel_cells_strided [OF assms(3)]]
    by (simp add: set_sum_kernel_cells_strided [OF assms(3)])
  then have "fold (sum_cell_step False k) sched m = fold (ideal_sum_cell_step k) sched m"
    by (intro fold_cells_ideal [OF fits]) simp
  also have "\<dots> = reference (ref_exact_member k) order m"
    using assms(1-5) by (rule sum_strided_any_order)
  finally show ?thesis .
qed





subsection \<open>The operators on well-shaped calls\<close>

lemma op_kargs_fields:
  "post (op_kargs attrs inp) = size_from_dim 1 (GRAD_dims inp)"
  "N (op_kargs attrs inp) = INDICES_dims inp ! 0"
  "len_length (op_kargs attrs inp) = LENGTHS_dims inp ! 0"
  "prefix_sum_length_data (op_kargs attrs inp) =
     inclusive_scan_wrapper (LENGTHS_data inp) (LENGTHS_dims inp ! 0)"
  "indices (op_kargs attrs inp) = INDICES_data inp"
  "weights (op_kargs attrs inp) = AUX_PARAM_data inp"
  "grad (op_kargs attrs inp) = GRAD_data inp"
  "lr (op_kargs attrs inp) = LR_data inp"
  "epsilon (op_kargs attrs inp) = op_epsilon attrs"
  "weight_decay (op_kargs attrs inp) = op_weight_decay attrs"
  "SIndex (op_kargs attrs inp) = INDICES_type inp"
  by (simp_all add: op_kargs_def Let_def)

lemma well_shaped_kargs:
  assumes "well_shaped r w inp"
  shows "segments_of (op_kargs attrs inp) (LENGTHS_data inp)"
    and "post (op_kargs attrs inp) = PARAM_dims inp ! 1"
    and "N (op_kargs attrs inp) = sum_list (LENGTHS_data inp)"
    and "len_length (op_kargs attrs inp) = int (length (LENGTHS_data inp))"
    and "0 < post (op_kargs attrs inp)"
  using assms
  by (simp_all add: well_shaped_def segments_of_def op_kargs_fields size_from_dim_def)

lemma launch_well_formed:
  assumes "segments_of k ls" and "N k = sum_list ls"
  shows "launch k step sched m = Inr (fold step sched m)"
proof -
  from assms(1) have nonneg: "\<forall>x \<in> set ls. 0 \<le> x" and len: "len_length k = int (length ls)"
    and offs: "prefix_sum_length_data k = inclusive_scan_wrapper ls (int (length ls))"
    by (simp_all add: segments_of_def list_all_iff)
  have "block_asserts k g" if "g < length ls" for g
    using seg_bounds [OF nonneg that] assms(2) by (simp add: block_asserts_def offs)
  then show ?thesis by (simp add: launch_def list_all_iff len)
qed

lemma no_members:
  assumes "segments_of k ls" and "sum_list ls = 0"
  shows "kernel_members k = []"
proof -
  have "c \<notin> set (kernel_members k)" for c
  proof (cases c)
    case (Pair g line)
    show ?thesis
    proof
      assume "c \<in> set (kernel_members k)"
      with Pair member_range(2,3) [OF assms(1), of g line] assms(2) show False by simp
    qed
  qed
  then show ?thesis by (cases "kernel_members k") auto
qed

lemma schedule_of_nil: "schedule_of [] order \<Longrightarrow> order = []"
  by (simp add: schedule_of_def)

lemma well_shaped_dims:
  assumes "well_shaped r w inp"
  obtains n d where "PARAM_dims inp = [n, d]" "0 \<le> n" "0 < d"
    "MOMENT_1_dims inp = (if r then [n] else [n, d])"
    "INDICES_dims inp = [sum_list (LENGTHS_data inp)]"
    "LENGTHS_dims inp = [int (length (LENGTHS_data inp))]"
    "GRAD_dims inp = [int (length (LENGTHS_data inp)), d]"
    "LR_dims inp = [1]"
    "w \<Longrightarrow> AUX_PARAM_dims inp = [sum_list (LENGTHS_data inp)]"
proof -
  from assms obtain n d where pd: "PARAM_dims inp = [n, d]"
    by (cases "PARAM_dims inp"; cases "tl (PARAM_dims inp)") (auto simp: well_shaped_def)
  with assms that [of n d] show ?thesis
    by (simp add: well_shaped_def split: if_splits)
qed

lemma positive_sum_segments:
  assumes "sum_list ls \<noteq> (0::int)"
  shows "0 < int (length ls)"
  using assms by (cases ls) auto

lemma Sum_run_reference:
  assumes ws: "well_shaped False w inp"
    and uniq: "unique_indices (op_kargs attrs inp) (LENGTHS_data inp)"
    and mt: "0 < maxThreads"
    and sched: "schedule_of (Sum_work maxThreads attrs inp) sched"
    and order: "schedule_of (kernel_members (op_kargs attrs inp)) order"
    and fits: "batch_fits (op_kargs attrs inp)"
  shows "Sum_RunOnDevice maxThreads attrs inp sched m =
     Inr \<lparr> kernel_launched = (sum_list (LENGTHS_data inp) \<noteq> 0), AUX_GRAD_dims = None,
           memory = reference (ref_exact_member (op_kargs attrs inp)) order m \<rparr>"
proof -
  let ?k = "op_kargs attrs inp" and ?ls = "LENGTHS_data inp"
  note k = well_shaped_kargs [OF ws, of attrs]
  from ws obtain n d where dims: "PARAM_dims inp = [n, d]" "0 \<le> n" "0 < d"
    "MOMENT_1_dims inp = (if False then [n] else [n, d])"
    "INDICES_dims inp = [sum_list ?ls]" "LENGTHS_dims inp = [int (length ?ls)]"
    "GRAD_dims inp = [int (length ?ls), d]" "LR_dims inp = [1]"
    by (rule well_shaped_dims)
  note sz = dims numel_def size_from_dim_def dim_at_def
  show ?thesis
  proof (cases "sum_list ?ls = 0")
    case True
    with no_members [OF k(1) True] order have "order = []" by (simp add: schedule_of_nil)
    with True show ?thesis
      by (simp add: Sum_RunOnDevice_def Sum_DoRunWithType_def enforce_def sz not_launched_def
          reference_def)
  next
    case False
    from False have S: "\<not> int (length ?ls) \<le> 0" using positive_sum_segments by fastforce
    show ?thesis
    proof (cases "post ?k \<le> maxThreads")
      case True
      with k(5) have "0 < maxThreads div post ?k"
        using pos_imp_zdiv_pos_iff [of "post ?k" maxThreads] by simp
      then have ypos: "0 < min (maxThreads div post ?k) SEGREDUCE_MINBLOCKS"
        by (simp add: SEGREDUCE_MINBLOCKS_def)
      from sched True have "schedule_of (sum_kernel_cells True ?k
          (post ?k, min (maxThreads div post ?k) SEGREDUCE_MINBLOCKS)) sched"
        by (simp add: Sum_work_def Sum_config_def Let_def)
      with k(1) uniq ypos
      have run: "fold (sum_cell_step True ?k) sched m = reference (ref_exact_member ?k) order m"
        using order fits by (rule sum_exact_fits_any_order)
      from False S k(5) True show ?thesis
        by (simp add: Sum_RunOnDevice_def Sum_DoRunWithType_def Sum_DoRunWithType2_def enforce_def
            sz Let_def launched_def launch_well_formed [OF k(1) k(3)] run)
    next
      case ne: False
      with sched have "schedule_of (sum_kernel_cells False ?k (maxThreads, 1)) sched"
        by (simp add: Sum_work_def Sum_config_def Let_def)
      with k(1) uniq mt
      have run: "fold (sum_cell_step False ?k) sched m = reference (ref_exact_member ?k) order m"
        using order fits by (rule sum_strided_fits_any_order)
      from False S ne show ?thesis
        by (simp add: Sum_RunOnDevice_def Sum_DoRunWithType_def Sum_DoRunWithType2_def enforce_def
            sz Let_def launched_def launch_well_formed [OF k(1) k(3)] run)
    qed
  qed
qed





subsection \<open>A call with a single member\<close>

lemma single_member_kargs:
  assumes "LENGTHS_data inp = [1]" "LENGTHS_dims inp = [1]"
  shows "kernel_members (op_kargs attrs inp) = [(0, 0)]"
proof -
  have "[0 ..< nat 1] = [0]" by simp
  moreover have "seg_start (inclusive_scan_wrapper [1] 1) 0 = 0" "seg_end (inclusive_scan_wrapper [1] 1) 0 = 1"
    by (simp_all add: seg_start_def seg_end_def inclusive_scan_wrapper_def InclusiveSum_def)
  ultimately show ?thesis
    using assms by (simp add: kernel_members_def block_members_def op_kargs_fields)
qed

lemma in_row_one: "in_row 1 r a \<longleftrightarrow> a = r"
  by (auto simp: in_row_def)

lemma Sum_single_member:
  assumes dims: "PARAM_dims inp = [n, 1]" "MOMENT_1_dims inp = [n, 1]" "0 \<le> n"
      "INDICES_dims inp = [1]" "LENGTHS_dims inp = [1]" "LENGTHS_data inp = [1]"
      "GRAD_dims inp = [1, 1]" "LR_dims inp = [1]"
    and idx: "0 \<le> INDICES_data inp 0" "INDICES_data inp 0 < SIndex_limit (INDICES_type inp)"
    and mt: "0 < maxThreads"
    and sched: "schedule_of (Sum_work maxThreads attrs inp) sched"
  shows "Sum_RunOnDevice maxThreads attrs inp sched m =
     Inr \<lparr> kernel_launched = True, AUX_GRAD_dims = None,
           memory = (let r = INDICES_data inp 0;
                         gi = GRAD_data inp 0 + op_weight_decay attrs * m (Param r);
                         mom_new = m (Mom r) + gi\<^sup>2
                     in m(Mom r := mom_new,
                          Param r := m (Param r) + LR_data inp 0 * gi / (sqrt mom_new + op_epsilon attrs))) \<rparr>"
proof -
  let ?k = "op_kargs attrs inp"
  have ws: "well_shaped False False inp"
    using dims by (simp add: well_shaped_def)
  have uniq: "unique_indices ?k (LENGTHS_data inp)"
    using dims by (simp add: unique_indices_def)
  have order: "schedule_of (kernel_members ?k) [(0, 0)]"
    using dims by (simp add: single_member_kargs schedule_of_def)
  have post: "post ?k = 1"
    using well_shaped_kargs(2) [OF ws, of attrs] dims by simp
  have fits: "batch_fits ?k"
    using dims idx post
    by (simp add: batch_fits_def single_member_kargs member_fits_def op_kargs_fields(5-))
  have "ref_exact_member ?k (0, 0) m =
      (let r = INDICES_data inp 0;
           gi = GRAD_data inp 0 + op_weight_decay attrs * m (Param r);
           mom_new = m (Mom r) + gi\<^sup>2
       in m(Mom r := mom_new,
            Param r := m (Param r) + LR_data inp 0 * gi / (sqrt mom_new + op_epsilon attrs)))"
  proof
    fix l show "ref_exact_member ?k (0, 0) m l =
      (let r = INDICES_data inp 0;
           gi = GRAD_data inp 0 + op_weight_decay attrs * m (Param r);
           mom_new = m (Mom r) + gi\<^sup>2
       in m(Mom r := mom_new,
            Param r := m (Param r) + LR_data inp 0 * gi / (sqrt mom_new + op_epsilon attrs))) l"
      by (cases l)
         (simp_all add: ref_exact_member_def Let_def post in_row_one effective_grad_def op_kargs_fields(5-))
  qed
  with Sum_run_reference [OF ws uniq mt sched order fits, of m] dims show ?thesis
    by (simp add: reference_def)
qed

subsection \<open>Batches whose offsets fit\<close>

text \<open>
  The offsets of every member fit when the indices are rows of the table and neither the
  table nor the gradient has more than \<open>2\<^sup>3\<^sup>1\<close> elements.
\<close>

lemma rows_in_range_fit:
  assumes ws: "well_shaped r w inp"
    and rows: "\<And>line. 0 \<le> line \<Longrightarrow> line < sum_list (LENGTHS_data inp) \<Longrightarrow>
        0 \<le> INDICES_data inp line \<and> INDICES_data inp line < PARAM_dims inp ! 0"
    and table: "numel (PARAM_dims inp) \<le> 2 ^ 31"
    and gradient: "numel (GRAD_dims inp) \<le> 2 ^ 31"
  shows "batch_fits (op_kargs attrs inp)"
proof -
  let ?k = "op_kargs attrs inp" and ?ls = "LENGTHS_data inp"
  note k = well_shaped_kargs [OF ws, of attrs]
  from ws obtain n d where dims: "PARAM_dims inp = [n, d]" "0 \<le> n" "0 < d"
    "GRAD_dims inp = [int (length ?ls), d]"
    by (rule well_shaped_dims)
  from k(2) dims have post: "post ?k = d" by simp
  from table dims have nd: "n * d \<le> 2 ^ 31" by (simp add: numel_def)
  from gradient dims have sd: "int (length ?ls) * d \<le> 2 ^ 31" by (simp add: numel_def)
  have lim: "(2::int) ^ 31 \<le> SIndex_limit T" for T
    by (cases T) (simp_all add: SIndex_limit_def)
  have "member_fits ?k c" if c: "c \<in> set (kernel_members ?k)" for c
  proof (cases c)
    case (Pair g line)
    with c member_range [OF k(1), of g line]
    have g: "g < length ?ls" and line: "0 \<le> line" "line < sum_list ?ls" by simp_all
    from rows [OF line] dims have idx: "0 \<le> INDICES_data inp line" "INDICES_data inp line < n"
      by simp_all
    from idx(2) have "INDICES_data inp line + 1 \<le> n" by simp
    with dims(3) have "(INDICES_data inp line + 1) * d \<le> n * d"
      by (intro mult_right_mono) simp_all
    with nd lim [of "INDICES_type inp"]
    have a: "(INDICES_data inp line + 1) * d \<le> SIndex_limit (INDICES_type inp)" by linarith
    from g have "int g + 1 \<le> int (length ?ls)" by simp
    with dims(3) have "(int g + 1) * d \<le> int (length ?ls) * d"
      by (intro mult_right_mono) simp_all
    with sd have b: "(int g + 1) * d \<le> 2 ^ 31" by linarith
    from idx(1) a b show ?thesis
      by (simp add: Pair member_fits_def post op_kargs_fields(5-))
  qed
  then show ?thesis by (simp add: batch_fits_def list_all_iff)
qed

section \<open>The claims\<close>

subsection \<open>One member of a kernel against the reference\<close>





lemma member_fits_weights [simp]:
  "member_fits (k\<lparr>weights := ws\<rparr>) c = member_fits k c"
  by (simp add: member_fits_def)


















lemma ref_weighted_member_weights:
  assumes "ws (line - seg_start (prefix_sum_length_data k) g) =
           ws' (line - seg_start (prefix_sum_length_data k) g)"
  shows "ref_weighted_member (k\<lparr>weights := ws\<rparr>) (g, line) m =
         ref_weighted_member (k\<lparr>weights := ws'\<rparr>) (g, line) m"
    and "ref_rowwise_weighted_member (k\<lparr>weights := ws\<rparr>) (g, line) m =
         ref_rowwise_weighted_member (k\<lparr>weights := ws'\<rparr>) (g, line) m"
  using assms
  by (auto simp: ref_weighted_member_def ref_rowwise_weighted_member_def Let_def out_grad_def
      weight_grad_def row_energy_def effective_grad_def fun_eq_iff split: loc.splits)






subsection \<open>What a run writes\<close>

lemma Sum_work_cells:
  assumes ws: "well_shaped False w inp" and mt: "0 < maxThreads"
  shows "distinct (Sum_work maxThreads attrs inp)"
    and "set (Sum_work maxThreads attrs inp) =
      {(g, line, i). (g, line) \<in> set (kernel_members (op_kargs attrs inp)) \<and> 0 \<le> i \<and>
         i < post (op_kargs attrs inp)}"
proof -
  let ?k = "op_kargs attrs inp"
  note k = well_shaped_kargs [OF ws, of attrs]
  show "distinct (Sum_work maxThreads attrs inp)"
    and "set (Sum_work maxThreads attrs inp) =
      {(g, line, i). (g, line) \<in> set (kernel_members ?k) \<and> 0 \<le> i \<and> i < post ?k}"
  proof (atomize (full), cases "post ?k \<le> maxThreads")
    case True
    with k(5) have "0 < maxThreads div post ?k"
      using pos_imp_zdiv_pos_iff [of "post ?k" maxThreads] by simp
    then have ypos: "0 < min (maxThreads div post ?k) SEGREDUCE_MINBLOCKS"
      by (simp add: SEGREDUCE_MINBLOCKS_def)
    have "Sum_work maxThreads attrs inp =
        sum_kernel_cells True ?k (post ?k, min (maxThreads div post ?k) SEGREDUCE_MINBLOCKS)"
      using True by (simp add: Sum_work_def Sum_config_def Let_def)
    then show "distinct (Sum_work maxThreads attrs inp) \<and>
        set (Sum_work maxThreads attrs inp) =
        {(g, line, i). (g, line) \<in> set (kernel_members ?k) \<and> 0 \<le> i \<and> i < post ?k}"
      using distinct_sum_kernel_cells_exact [OF ypos] set_sum_kernel_cells_exact [OF ypos]
      by simp
  next
    case False
    then have "Sum_work maxThreads attrs inp = sum_kernel_cells False ?k (maxThreads, 1)"
      by (simp add: Sum_work_def Sum_config_def Let_def)
    then show "distinct (Sum_work maxThreads attrs inp) \<and>
        set (Sum_work maxThreads attrs inp) =
        {(g, line, i). (g, line) \<in> set (kernel_members ?k) \<and> 0 \<le> i \<and> i < post ?k}"
      using distinct_sum_kernel_cells_strided [OF mt] set_sum_kernel_cells_strided [OF mt]
      by simp
  qed
qed


lemma schedule_of_empty_work:
  assumes "schedule_of work sched" and "set work = {}"
  shows "sched = []"
  using assms by (simp add: schedule_of_def)








lemma Sum_run_cells:
  assumes ws: "well_shaped False w inp" and mt: "0 < maxThreads"
    and sched: "schedule_of (Sum_work maxThreads attrs inp) sched"
  shows "Sum_RunOnDevice maxThreads attrs inp sched m =
     Inr \<lparr> kernel_launched = (sum_list (LENGTHS_data inp) \<noteq> 0), AUX_GRAD_dims = None,
           memory = fold (sum_cell_step (post (op_kargs attrs inp) \<le> maxThreads)
                            (op_kargs attrs inp)) sched m \<rparr>"
proof -
  let ?k = "op_kargs attrs inp" and ?ls = "LENGTHS_data inp"
  note k = well_shaped_kargs [OF ws, of attrs]
  from ws obtain n d where dims: "PARAM_dims inp = [n, d]" "0 \<le> n" "0 < d"
    "MOMENT_1_dims inp = (if False then [n] else [n, d])"
    "INDICES_dims inp = [sum_list ?ls]" "LENGTHS_dims inp = [int (length ?ls)]"
    "GRAD_dims inp = [int (length ?ls), d]" "LR_dims inp = [1]"
    by (rule well_shaped_dims)
  note sz = dims numel_def size_from_dim_def dim_at_def
  show ?thesis
  proof (cases "sum_list ?ls = 0")
    case True
    from no_members [OF k(1) True] have "set (Sum_work maxThreads attrs inp) = {}"
      by (simp add: Sum_work_cells(2) [OF ws mt])
    with sched have "sched = []" by (rule schedule_of_empty_work)
    with True show ?thesis
      by (simp add: Sum_RunOnDevice_def Sum_DoRunWithType_def enforce_def sz not_launched_def)
  next
    case False
    from False have S: "\<not> int (length ?ls) \<le> 0" using positive_sum_segments by fastforce
    from False S k(5) show ?thesis
      by (simp add: Sum_RunOnDevice_def Sum_DoRunWithType_def Sum_DoRunWithType2_def enforce_def
          sz Let_def launched_def launch_well_formed [OF k(1) k(3)])
  qed
qed
















lemma sum_list_all_zero: "list_all (\<lambda>x. x = 0) ls \<Longrightarrow> sum_list ls = (0::int)"
  by (induction ls) simp_all

text \<open>
  Claim C9. A call with no segments, or whose segment lengths are all zero, has an empty
  index array; once the shape checks of \<open>RunOnDevice\<close> pass, each of the four operators
  returns successfully without launching a kernel, leaves memory (both tables) as it
  was, and the weighted operators allocate a weight-gradient output of length 0. Also
  \<open>DoRunWithType2\<close>, reached with an index array of any length and no segments, passes
  its shape checks as soon as the gradient has no rows either (and the tables agree in
  size), and then returns successfully without launching a kernel or changing memory; the
  weighted operators then allocate a weight-gradient output of the shape of the indices.
\<close>

theorem empty_batch_is_noop:
  "(INDICES_dims inp = [sum_list (LENGTHS_data inp)] \<and> list_all (\<lambda>x. x = 0) (LENGTHS_data inp) \<and>
    numel (LR_dims inp) = 1 \<and>
    size_from_dim 1 (PARAM_dims inp) = size_from_dim (length (INDICES_dims inp)) (GRAD_dims inp) \<longrightarrow>
      (numel (PARAM_dims inp) = numel (MOMENT_1_dims inp) \<longrightarrow>
         Sum_RunOnDevice maxThreads attrs inp sched_c m =
           Inr \<lparr> kernel_launched = False, AUX_GRAD_dims = None, memory = m \<rparr> \<and>
         WeightedSum_RunOnDevice maxThreads attrs inp sched m =
           Inr \<lparr> kernel_launched = False, AUX_GRAD_dims = Some [0], memory = m \<rparr>) \<and>
      RowWise_RunOnDevice maxThreads attrs inp sched m =
        Inr \<lparr> kernel_launched = False, AUX_GRAD_dims = None, memory = m \<rparr> \<and>
      RowWiseWeighted_RunOnDevice maxThreads attrs inp sched m =
        Inr \<lparr> kernel_launched = False, AUX_GRAD_dims = Some [0], memory = m \<rparr>)
   \<and> (length (LENGTHS_dims inp) = 1 \<and> LENGTHS_dims inp ! 0 \<le> 0 \<and> GRAD_dims inp \<noteq> [] \<and>
       GRAD_dims inp ! 0 = LENGTHS_dims inp ! 0 \<and> INDICES_dims inp \<noteq> [] \<longrightarrow>
      (numel (PARAM_dims inp) = numel (MOMENT_1_dims inp) \<longrightarrow>
         Sum_DoRunWithType2 maxThreads attrs inp sched_c m =
           Inr \<lparr> kernel_launched = False, AUX_GRAD_dims = None, memory = m \<rparr> \<and>
         (length (AUX_PARAM_dims inp) = 1 \<longrightarrow>
            WeightedSum_DoRunWithType2 maxThreads attrs inp sched m =
              Inr \<lparr> kernel_launched = False, AUX_GRAD_dims = Some (INDICES_dims inp),
                    memory = m \<rparr>)) \<and>
      (PARAM_dims inp \<noteq> [] \<and> MOMENT_1_dims inp \<noteq> [] \<and>
       PARAM_dims inp ! 0 = MOMENT_1_dims inp ! 0 \<longrightarrow>
         RowWise_DoRunWithType2 maxThreads attrs inp sched m =
           Inr \<lparr> kernel_launched = False, AUX_GRAD_dims = None, memory = m \<rparr> \<and>
         (length (AUX_PARAM_dims inp) = 1 \<longrightarrow>
            RowWiseWeighted_DoRunWithType2 maxThreads attrs inp sched m =
              Inr \<lparr> kernel_launched = False, AUX_GRAD_dims = Some (INDICES_dims inp),
                    memory = m \<rparr>)))"
proof (intro conjI impI)
  assume h: "INDICES_dims inp = [sum_list (LENGTHS_data inp)] \<and>
    list_all (\<lambda>x. x = 0) (LENGTHS_data inp) \<and> numel (LR_dims inp) = 1 \<and>
    size_from_dim 1 (PARAM_dims inp) = size_from_dim (length (INDICES_dims inp)) (GRAD_dims inp)"
  then have n: "numel (INDICES_dims inp) = 0"
    by (simp add: numel_def sum_list_all_zero)
  from h have c: "numel (LR_dims inp) = 1"
    "size_from_dim 1 (PARAM_dims inp) = size_from_dim (length (INDICES_dims inp)) (GRAD_dims inp)"
    by blast+
  show "RowWise_RunOnDevice maxThreads attrs inp sched m =
        Inr \<lparr> kernel_launched = False, AUX_GRAD_dims = None, memory = m \<rparr>"
    unfolding RowWise_RunOnDevice_def RowWise_DoRunWithType_def enforce_def not_launched_def
    by (simp only: n c Let_def if_True refl simp_thms)
  show "RowWiseWeighted_RunOnDevice maxThreads attrs inp sched m =
        Inr \<lparr> kernel_launched = False, AUX_GRAD_dims = Some [0], memory = m \<rparr>"
    unfolding RowWiseWeighted_RunOnDevice_def RowWiseWeighted_DoRunWithType_def enforce_def
      not_launched_def
    by (simp only: n c Let_def if_True refl simp_thms)
  assume p: "numel (PARAM_dims inp) = numel (MOMENT_1_dims inp)"
  show "Sum_RunOnDevice maxThreads attrs inp sched_c m =
           Inr \<lparr> kernel_launched = False, AUX_GRAD_dims = None, memory = m \<rparr>"
    unfolding Sum_RunOnDevice_def Sum_DoRunWithType_def enforce_def not_launched_def
    by (simp only: n c p Let_def if_True refl simp_thms)
  show "WeightedSum_RunOnDevice maxThreads attrs inp sched m =
           Inr \<lparr> kernel_launched = False, AUX_GRAD_dims = Some [0], memory = m \<rparr>"
    unfolding WeightedSum_RunOnDevice_def WeightedSum_DoRunWithType_def enforce_def
      not_launched_def
    by (simp only: n c p Let_def if_True refl simp_thms)
next
  assume z: "length (LENGTHS_dims inp) = 1 \<and> LENGTHS_dims inp ! 0 \<le> 0 \<and> GRAD_dims inp \<noteq> [] \<and>
       GRAD_dims inp ! 0 = LENGTHS_dims inp ! 0 \<and> INDICES_dims inp \<noteq> []"
  {
    assume p: "numel (PARAM_dims inp) = numel (MOMENT_1_dims inp)"
    from z p show "Sum_DoRunWithType2 maxThreads attrs inp sched_c m =
           Inr \<lparr> kernel_launched = False, AUX_GRAD_dims = None, memory = m \<rparr>"
      by (simp add: Sum_DoRunWithType2_def enforce_def not_launched_def dim_at_def)
    assume a: "length (AUX_PARAM_dims inp) = 1"
    from z p a show "WeightedSum_DoRunWithType2 maxThreads attrs inp sched m =
              Inr \<lparr> kernel_launched = False, AUX_GRAD_dims = Some (INDICES_dims inp),
                    memory = m \<rparr>"
      by (simp add: WeightedSum_DoRunWithType2_def enforce_def not_launched_def dim_at_def)
  }
  assume r: "PARAM_dims inp \<noteq> [] \<and> MOMENT_1_dims inp \<noteq> [] \<and>
       PARAM_dims inp ! 0 = MOMENT_1_dims inp ! 0"
  from z r show "RowWise_DoRunWithType2 maxThreads attrs inp sched m =
           Inr \<lparr> kernel_launched = False, AUX_GRAD_dims = None, memory = m \<rparr>"
    by (simp add: RowWise_DoRunWithType2_def enforce_def not_launched_def dim_at_def)
  assume a: "length (AUX_PARAM_dims inp) = 1"
  from z r a show "RowWiseWeighted_DoRunWithType2 maxThreads attrs inp sched m =
              Inr \<lparr> kernel_launched = False, AUX_GRAD_dims = Some (INDICES_dims inp),
                    memory = m \<rparr>"
    by (simp add: RowWiseWeighted_DoRunWithType2_def enforce_def not_launched_def dim_at_def)
qed

theorem empty_batch_is_noop_witness:
  "Sum_RunOnDevice 1024 ex_attrs ex_inp_empty [] ex_mem_row1 =
     Inr \<lparr> kernel_launched = False, AUX_GRAD_dims = None, memory = ex_mem_row1 \<rparr>
   \<and> WeightedSum_RunOnDevice 1024 ex_attrs ex_inp_empty [] ex_mem_row1 =
     Inr \<lparr> kernel_launched = False, AUX_GRAD_dims = Some [0], memory = ex_mem_row1 \<rparr>
   \<and> RowWise_RunOnDevice 1024 ex_attrs (ex_inp_empty \<lparr> MOMENT_1_dims := [3] \<rparr>) [] ex_mem_row1 =
     Inr \<lparr> kernel_launched = False, AUX_GRAD_dims = None, memory = ex_mem_row1 \<rparr>
   \<and> RowWiseWeighted_RunOnDevice 1024 ex_attrs (ex_inp_empty \<lparr> MOMENT_1_dims := [3] \<rparr>) []
       ex_mem_row1 =
     Inr \<lparr> kernel_launched = False, AUX_GRAD_dims = Some [0], memory = ex_mem_row1 \<rparr>
   \<and> Sum_RunOnDevice 1024 ex_attrs
       (ex_inp_no_segments \<lparr> INDICES_dims := [0], AUX_PARAM_dims := [0] \<rparr>) [] ex_mem_row1 =
     Inr \<lparr> kernel_launched = False, AUX_GRAD_dims = None, memory = ex_mem_row1 \<rparr>
   \<and> WeightedSum_RunOnDevice 1024 ex_attrs
       (ex_inp_no_segments \<lparr> INDICES_dims := [0], AUX_PARAM_dims := [0] \<rparr>) [] ex_mem_row1 =
     Inr \<lparr> kernel_launched = False, AUX_GRAD_dims = Some [0], memory = ex_mem_row1 \<rparr>
   \<and> Sum_DoRunWithType2 1024 ex_attrs ex_inp_no_segments [] ex_mem_row1 =
     Inr \<lparr> kernel_launched = False, AUX_GRAD_dims = None, memory = ex_mem_row1 \<rparr>
   \<and> WeightedSum_DoRunWithType2 1024 ex_attrs ex_inp_no_segments [] ex_mem_row1 =
     Inr \<lparr> kernel_launched = False, AUX_GRAD_dims = Some [3], memory = ex_mem_row1 \<rparr>
   \<and> RowWise_DoRunWithType2 1024 ex_attrs (ex_inp_no_segments \<lparr> MOMENT_1_dims := [3] \<rparr>) []
       ex_mem_row1 =
     Inr \<lparr> kernel_launched = False, AUX_GRAD_dims = None, memory = ex_mem_row1 \<rparr>
   \<and> RowWiseWeighted_DoRunWithType2 1024 ex_attrs (ex_inp_no_segments \<lparr> MOMENT_1_dims := [3] \<rparr>)
       [] ex_mem_row1 =
     Inr \<lparr> kernel_launched = False, AUX_GRAD_dims = Some [3], memory = ex_mem_row1 \<rparr>"
  using empty_batch_is_noop [of ex_inp_empty 1024 ex_attrs "[]" ex_mem_row1 "[]"]
    empty_batch_is_noop [of "ex_inp_empty \<lparr> MOMENT_1_dims := [3] \<rparr>" 1024 ex_attrs "[]"
      ex_mem_row1 "[]"]
    empty_batch_is_noop [of "ex_inp_no_segments \<lparr> INDICES_dims := [0], AUX_PARAM_dims := [0] \<rparr>"
      1024 ex_attrs "[]" ex_mem_row1 "[]"]
    empty_batch_is_noop [of ex_inp_no_segments 1024 ex_attrs "[]" ex_mem_row1 "[]"]
    empty_batch_is_noop [of "ex_inp_no_segments \<lparr> MOMENT_1_dims := [3] \<rparr>" 1024 ex_attrs "[]"
      ex_mem_row1 "[]"]
  by (simp add: ex_inp_empty_def ex_inp_no_segments_def ex_inp_def numel_def size_from_dim_def)

text \<open>
  Claim C6 does not hold of the code. The assertions of a block compare the segment's
  offsets with the kernel argument \<open>N\<close>, which the kernels document as the number of rows
  of the table and for which the host passes the length of the index array; no statement
  compares an index value with anything. In the first call below the parameter table has
  two rows and the only index is 5: \<open>N\<close> is 1, the assertions of the block hold, and the run
  goes on to update offset 5 of both tables, beyond their two elements. In the second call
  the table has two rows and the last segment offset is 3: the assertions hold as well,
  since \<open>N\<close> is the number of indices, 3.
\<close>

theorem index_out_of_range_is_not_asserted:
  "PARAM_dims ex_inp_out_of_range = [2, 1] \<and> INDICES_data ex_inp_out_of_range 0 = 5
   \<and> N (op_kargs ex_attrs ex_inp_out_of_range) = 1
   \<and> block_asserts (op_kargs ex_attrs ex_inp_out_of_range) 0
   \<and> Sum_RunOnDevice 1024 ex_attrs ex_inp_out_of_range
        (Sum_work 1024 ex_attrs ex_inp_out_of_range) ex_mem =
      Inr \<lparr> kernel_launched = True, AUX_GRAD_dims = None,
            memory = ex_mem(Mom 5 := 1, Param 5 := 1 / (sqrt 1 + 1 / 100000)) \<rparr>
   \<and> PARAM_dims ex_inp_two_rows = [2, 2]
   \<and> N (op_kargs ex_attrs ex_inp_two_rows) = 3
   \<and> block_asserts (op_kargs ex_attrs ex_inp_two_rows) 0
   \<and> block_asserts (op_kargs ex_attrs ex_inp_two_rows) 1
   \<and> seg_end (prefix_sum_length_data (op_kargs ex_attrs ex_inp_two_rows)) 1 = 3
   \<and> Sum_RunOnDevice 1024 ex_attrs ex_inp_two_rows
        (Sum_work 1024 ex_attrs ex_inp_two_rows) ex_mem \<noteq> Inl DeviceAssert"
proof -
  have s: "schedule_of xs xs" for xs :: "'a list"
    by (simp add: schedule_of_def)
  have "Sum_RunOnDevice 1024 ex_attrs ex_inp_out_of_range
        (Sum_work 1024 ex_attrs ex_inp_out_of_range) ex_mem =
      Inr \<lparr> kernel_launched = True, AUX_GRAD_dims = None,
            memory = ex_mem(Mom 5 := 1, Param 5 := 1 / (sqrt 1 + 1 / 100000)) \<rparr>"
    using Sum_single_member [of ex_inp_out_of_range 2 1024 ex_attrs
        "Sum_work 1024 ex_attrs ex_inp_out_of_range" ex_mem]
      s [of "Sum_work 1024 ex_attrs ex_inp_out_of_range"]
    by (simp add: ex_inp_out_of_range_def ex_attrs_def ex_mem_def Let_def SIndex_limit_def)
  moreover have "N (op_kargs ex_attrs ex_inp_out_of_range) = 1"
    "block_asserts (op_kargs ex_attrs ex_inp_out_of_range) 0"
    by (simp_all add: block_asserts_def op_kargs_fields ex_inp_out_of_range_def seg_start_def
        seg_end_def inclusive_scan_wrapper_def InclusiveSum_def)
  moreover have "N (op_kargs ex_attrs ex_inp_two_rows) = 3"
    "block_asserts (op_kargs ex_attrs ex_inp_two_rows) 0"
    "block_asserts (op_kargs ex_attrs ex_inp_two_rows) 1"
    by (simp_all add: block_asserts_def op_kargs_fields ex_inp_two_rows_def ex_inp_def seg_start_def
        seg_end_def inclusive_scan_wrapper_def InclusiveSum_def)
  moreover have "well_shaped False False ex_inp_two_rows"
    by (simp add: well_shaped_def ex_inp_two_rows_def ex_inp_def)
  then have "Sum_RunOnDevice 1024 ex_attrs ex_inp_two_rows
        (Sum_work 1024 ex_attrs ex_inp_two_rows) ex_mem \<noteq> Inl DeviceAssert"
    using Sum_run_cells [of False ex_inp_two_rows 1024 ex_attrs
        "Sum_work 1024 ex_attrs ex_inp_two_rows" ex_mem]
      s [of "Sum_work 1024 ex_attrs ex_inp_two_rows"]
    by simp
  moreover have "seg_end (prefix_sum_length_data (op_kargs ex_attrs ex_inp_two_rows)) 1 = 3"
    by (simp add: op_kargs_fields ex_inp_two_rows_def ex_inp_def seg_end_def
        inclusive_scan_wrapper_def InclusiveSum_def)
  ultimately show ?thesis
    by (simp add: ex_inp_out_of_range_def ex_inp_two_rows_def ex_inp_def)
qed



end
